theory Spec2Isabelle
  imports Main "HOL-Library.AList" "HOL-Library.Multiset"
begin

section \<open>Exceptions\<close>

text \<open>
  C++ exceptions are values of type \<open>exn\<close>; a function that may throw returns
  \<open>exn + 'a\<close> with \<open>Inl\<close> for the thrown exception. \<open>foreign_exception\<close> stands for a
  thrown value whose type is not derived from \<open>std::exception\<close> (a user callback may
  throw anything), which a \<open>catch (const std::exception&)\<close> handler does not catch.
\<close>

datatype exn =
    runtime_error string
  | invalid_argument string
  | std_exception string
  | foreign_exception

fun is_std_exception :: "exn \<Rightarrow> bool" where
  "is_std_exception foreign_exception = False"
| "is_std_exception _ = True"

text \<open>\<open>std::to_string\<close> on an unsigned integer: its decimal digits.\<close>

definition digit :: "nat \<Rightarrow> char" where
  "digit d = ''0123456789'' ! d"

fun to_string :: "nat \<Rightarrow> string" where
  "to_string n = (if n < 10 then [digit n] else to_string (n div 10) @ [digit (n mod 10)])"

section \<open>ExecutionGraph (engine/execution_graph.cpp)\<close>

text \<open>
  The three \<open>std::unordered_map\<close> members are association lists with one entry per key;
  the order of the list is the order in which a range-for loop enumerates the container
  (unspecified by the language but fixed for an unmodified container, so two loops over the
  same graph see the same order). \<open>m[k] = v\<close> is \<open>AList.update\<close>, \<open>m.erase(k)\<close> is
  \<open>AList.delete\<close>, \<open>m.find(k)\<close> is \<open>map_of\<close>, and \<open>m[k].push_back(x)\<close> is
  \<open>AList.map_default\<close>, which creates the entry when the key is absent as
  \<open>operator[]\<close> does. \<open>OperatorId\<close> is \<open>size_t\<close>; the counter starts at 0 and grows by one
  per \<open>addOperator\<close>, and is modelled by \<open>nat\<close>. The type \<open>'op\<close> is the stored
  \<open>std::shared_ptr<Operator>\<close>.
\<close>

record 'op ExecutionGraph =
  operators :: "(nat \<times> 'op) list"
  adjacency_list :: "(nat \<times> nat list) list"
  reverse_adjacency_list :: "(nat \<times> nat list) list"
  next_operator_id :: nat

definition ExecutionGraph_init :: "'op ExecutionGraph" where
  "ExecutionGraph_init =
     \<lparr>operators = [], adjacency_list = [], reverse_adjacency_list = [], next_operator_id = 0\<rparr>"

definition addOperator :: "'op \<Rightarrow> 'op ExecutionGraph \<Rightarrow> nat \<times> 'op ExecutionGraph" where
  "addOperator op g =
     (let ident = next_operator_id g in
        (ident,
         g\<lparr>next_operator_id := ident + 1,
           operators := AList.update ident op (operators g),
           adjacency_list := AList.update ident [] (adjacency_list g),
           reverse_adjacency_list := AList.update ident [] (reverse_adjacency_list g)\<rparr>))"

definition connectOperators :: "nat \<Rightarrow> nat \<Rightarrow> 'op ExecutionGraph \<Rightarrow> 'op ExecutionGraph" where
  "connectOperators source target g =
     g\<lparr>adjacency_list :=
         map_default source [target] (\<lambda>succs. succs @ [target]) (adjacency_list g),
       reverse_adjacency_list :=
         map_default target [source] (\<lambda>preds. preds @ [source]) (reverse_adjacency_list g)\<rparr>"

definition removeOperator :: "nat \<Rightarrow> 'op ExecutionGraph \<Rightarrow> 'op ExecutionGraph" where
  "removeOperator ident g =
     g\<lparr>operators := AList.delete ident (operators g),
       adjacency_list :=
         map (\<lambda>(op_id, successors). (op_id, removeAll ident successors))
           (AList.delete ident (adjacency_list g)),
       reverse_adjacency_list :=
         map (\<lambda>(op_id, predecessors). (op_id, removeAll ident predecessors))
           (AList.delete ident (reverse_adjacency_list g))\<rparr>"

definition getSuccessors :: "'op ExecutionGraph \<Rightarrow> nat \<Rightarrow> nat list" where
  "getSuccessors g ident =
     (case map_of (adjacency_list g) ident of Some succs \<Rightarrow> succs | None \<Rightarrow> [])"

definition getPredecessors :: "'op ExecutionGraph \<Rightarrow> nat \<Rightarrow> nat list" where
  "getPredecessors g ident =
     (case map_of (reverse_adjacency_list g) ident of Some preds \<Rightarrow> preds | None \<Rightarrow> [])"

definition getOperator :: "'op ExecutionGraph \<Rightarrow> nat \<Rightarrow> 'op option" where
  "getOperator g ident = map_of (operators g) ident"

definition getOperatorCount :: "'op ExecutionGraph \<Rightarrow> nat" where
  "getOperatorCount g = length (operators g)"

definition empty_graph :: "'op ExecutionGraph \<Rightarrow> bool" where
  "empty_graph g = (operators g = [])"

text \<open>
  The depth-first search. Its state is the triple of the reference parameters
  \<open>visited\<close>, \<open>rec_stack\<close> and \<open>topo_order\<close>. The two \<open>unordered_map<OperatorId, bool>\<close>
  are only accessed through \<open>operator[]\<close>, which yields \<open>false\<close> for a key that was never
  written; they are total functions with default \<open>False\<close>. The successors visited are those
  of \<open>adjacency_list_.find(id)\<close>, none when the key is absent, which is \<open>getSuccessors\<close>.
  \<open>visit_successors\<close> is the range-for loop over them; a result \<open>True\<close> is the early
  \<open>return true\<close> (cycle).
\<close>

type_synonym dfs_state = "(nat \<Rightarrow> bool) \<times> (nat \<Rightarrow> bool) \<times> nat list"

function topologicalSortUtil ::
    "'op ExecutionGraph \<Rightarrow> nat \<Rightarrow> dfs_state \<Rightarrow> bool \<times> dfs_state"
  and visit_successors ::
    "'op ExecutionGraph \<Rightarrow> nat list \<Rightarrow> dfs_state \<Rightarrow> bool \<times> dfs_state"
where
  "topologicalSortUtil g ident (visited, rec_stack, topo_order) =
     (case visit_successors g (getSuccessors g ident)
             (visited(ident := True), rec_stack(ident := True), topo_order) of
        (True, s) \<Rightarrow> (True, s)
      | (False, (visited2, rec_stack2, topo_order2)) \<Rightarrow>
          (False, (visited2, rec_stack2(ident := False), topo_order2 @ [ident])))"
| "visit_successors g [] s = (False, s)"
| "visit_successors g (successor # rest) (visited, rec_stack, topo_order) =
     (if \<not> visited successor then
        (case topologicalSortUtil g successor (visited, rec_stack, topo_order) of
           (True, s) \<Rightarrow> (True, s)
         | (False, s) \<Rightarrow> visit_successors g rest s)
      else if rec_stack successor then (True, (visited, rec_stack, topo_order))
      else visit_successors g rest (visited, rec_stack, topo_order))"
  by pat_completeness auto

text \<open>
  Termination: every recursive call of \<open>topologicalSortUtil\<close> marks a node that was not
  visited before, and all nodes ever reached are targets of edges of the finite adjacency
  list. The search never clears a \<open>visited\<close> mark, which is shown on the domain of the
  function first.
\<close>

definition targets :: "'op ExecutionGraph \<Rightarrow> nat set" where
  "targets g = (\<Union>(k, succs) \<in> set (adjacency_list g). set succs)"

lemma finite_targets: "finite (targets g)"
  by (auto simp: targets_def)

lemma getSuccessors_targets: "set (getSuccessors g k) \<subseteq> targets g"
proof (cases "map_of (adjacency_list g) k")
  case None
  then show ?thesis by (simp add: getSuccessors_def)
next
  case (Some succs)
  then have "(k, succs) \<in> set (adjacency_list g)" by (rule map_of_SomeD)
  with Some show ?thesis by (auto simp: getSuccessors_def targets_def)
qed

lemma dfs_dom_visited_mono:
  "topologicalSortUtil_visit_successors_dom (Inl (g, ident, s)) \<Longrightarrow>
     fst s x \<Longrightarrow> fst (snd (topologicalSortUtil g ident s)) x"
  "topologicalSortUtil_visit_successors_dom (Inr (g, succs, s)) \<Longrightarrow>
     fst s x \<Longrightarrow> fst (snd (visit_successors g succs s)) x"
proof (induction g ident s and g succs s rule: topologicalSortUtil_visit_successors.pinduct)
  case (1 g ident visited rec_stack topo_order)
  then show ?case
    by (auto simp: topologicalSortUtil.psimps split: prod.splits bool.splits)
next
  case (2 g s)
  then show ?case by (simp add: visit_successors.psimps)
next
  case (3 g successor rest visited rec_stack topo_order)
  then show ?case
    by (auto simp: visit_successors.psimps split: prod.splits bool.splits)
qed

definition unvisited_in :: "(nat \<Rightarrow> bool) \<Rightarrow> nat set \<Rightarrow> nat" where
  "unvisited_in visited U = card {x \<in> U. \<not> visited x}"

lemma unvisited_in_mono:
  assumes "finite U'" "U \<subseteq> U'" "\<And>x. v x \<Longrightarrow> v' x"
  shows "unvisited_in v' U \<le> unvisited_in v U'"
  unfolding unvisited_in_def using assms by (intro card_mono) auto

lemma unvisited_in_less:
  assumes "finite U'" "U \<subseteq> U'" "\<And>x. v x \<Longrightarrow> v' x" "a \<in> U'" "\<not> v a" "v' a"
  shows "unvisited_in v' U < unvisited_in v U'"
  unfolding unvisited_in_def using assms by (intro psubset_card_mono) auto

termination topologicalSortUtil
proof (relation "measures
    [\<lambda>a. case a of
        Inl (g, ident, (visited, _)) \<Rightarrow> unvisited_in (visited(ident := True)) (targets g)
      | Inr (g, succs, (visited, _)) \<Rightarrow> unvisited_in visited (targets g \<union> set succs),
     \<lambda>a. case a of
        Inl (g, ident, s) \<Rightarrow> Suc (length (getSuccessors g ident))
      | Inr (g, succs, s) \<Rightarrow> length succs]", goal_cases)
  case 1
  then show ?case by simp
next
  case (2 g ident visited rec_stack topo_order)
  have "targets g \<union> set (getSuccessors g ident) = targets g"
    using getSuccessors_targets[of g ident] by auto
  then show ?case by simp
next
  case (3 g successor rest visited rec_stack topo_order)
  have "unvisited_in (visited(successor := True)) (targets g)
        < unvisited_in visited (targets g \<union> set (successor # rest))"
    using 3 by (intro unvisited_in_less[where a = successor]) (auto simp: finite_targets)
  then show ?case by simp
next
  case (4 g successor rest visited rec_stack topo_order x y)
  have mono: "fst y z" if "visited z" for z
  proof -
    have "snd (topologicalSortUtil g successor (visited, rec_stack, topo_order)) = y"
      using 4(2) by (metis snd_conv)
    then show ?thesis
      using dfs_dom_visited_mono(1)[OF 4(4), of z] that by simp
  qed
  have "unvisited_in (fst y) (targets g \<union> set rest)
        \<le> unvisited_in visited (targets g \<union> set (successor # rest))"
    using mono by (intro unvisited_in_mono) (auto simp: finite_targets)
  then show ?case by (cases y) auto
next
  case (5 g successor rest visited rec_stack topo_order)
  have "unvisited_in visited (targets g \<union> set rest)
        \<le> unvisited_in visited (targets g \<union> set (successor # rest))"
    by (intro unvisited_in_mono) (auto simp: finite_targets)
  then show ?case by auto
qed

declare topologicalSortUtil.simps [simp del]

text \<open>
  The initialisation loop writes \<open>false\<close> for every operator id into both maps.
\<close>

definition init_flags :: "(nat \<times> 'op) list \<Rightarrow> nat \<Rightarrow> bool" where
  "init_flags ops = fold (\<lambda>(ident, op) flags. flags(ident := False)) ops (\<lambda>_. False)"

text \<open>
  The loop of \<open>getTopologicalOrder\<close> over the operators: a depth-first search from every
  operator not visited yet, all with the same \<open>result\<close> vector.
\<close>

fun sort_roots :: "'op ExecutionGraph \<Rightarrow> nat list \<Rightarrow> dfs_state \<Rightarrow> bool \<times> dfs_state" where
  "sort_roots g [] s = (False, s)"
| "sort_roots g (ident # rest) (visited, rec_stack, result) =
     (if \<not> visited ident then
        (case topologicalSortUtil g ident (visited, rec_stack, result) of
           (True, s) \<Rightarrow> (True, s)
         | (False, s) \<Rightarrow> sort_roots g rest s)
      else sort_roots g rest (visited, rec_stack, result))"

definition getTopologicalOrder :: "'op ExecutionGraph \<Rightarrow> nat list" where
  "getTopologicalOrder g =
     (case sort_roots g (map fst (operators g))
             (init_flags (operators g), init_flags (operators g), []) of
        (True, s) \<Rightarrow> []
      | (False, (visited, rec_stack, result)) \<Rightarrow> rev result)"

text \<open>
  The loop of \<open>detectCycles\<close>: the same search, but every root gets a fresh, empty
  \<open>dummy\<close> vector, which is dropped afterwards.
\<close>

fun detect_roots ::
    "'op ExecutionGraph \<Rightarrow> nat list \<Rightarrow> (nat \<Rightarrow> bool) \<times> (nat \<Rightarrow> bool) \<Rightarrow> bool" where
  "detect_roots g [] s = False"
| "detect_roots g (ident # rest) (visited, rec_stack) =
     (if \<not> visited ident then
        (case topologicalSortUtil g ident (visited, rec_stack, []) of
           (True, s) \<Rightarrow> True
         | (False, (visited2, rec_stack2, dummy)) \<Rightarrow> detect_roots g rest (visited2, rec_stack2))
      else detect_roots g rest (visited, rec_stack))"

definition detectCycles :: "'op ExecutionGraph \<Rightarrow> bool" where
  "detectCycles g =
     detect_roots g (map fst (operators g)) (init_flags (operators g), init_flags (operators g))"

definition isValid :: "'op ExecutionGraph \<Rightarrow> bool" where
  "isValid g = (\<not> detectCycles g)"

definition validate :: "'op ExecutionGraph \<Rightarrow> bool" where
  "validate g = isValid g"

text \<open>
  The specification of \<open>validate\<close>, in the words of the specification: true iff
  \<open>getTopologicalOrder\<close> yields a non-empty vector or the graph is empty.
\<close>

definition validate_spec :: "'op ExecutionGraph \<Rightarrow> bool" where
  "validate_spec g \<longleftrightarrow> getTopologicalOrder g \<noteq> [] \<or> empty_graph g"

section \<open>StreamEngine (engine/stream_engine.cpp)\<close>

text \<open>
  The engine keeps two maps keyed by \<open>GraphId\<close> (a \<open>size_t\<close> counter from 0, modelled by
  \<open>nat\<close>). A submitted graph is a \<open>std::shared_ptr<ExecutionGraph>\<close>, \<open>None\<close> for the
  null pointer; the engine stores the value the graph has when it is submitted (changes
  made later through another owner of the pointer are not modelled). The loop of
  \<open>executeGraph\<close> over the order only prints, so it is left out.
  A call that throws keeps the writes made before the throw, so the calls that write before
  they may throw return the exception together with the engine.
\<close>

datatype GraphState = UNKNOWN | SUBMITTED | RUNNING | COMPLETED | STOPPED | ERROR

record 'op StreamEngine =
  next_graph_id :: nat
  submitted_graphs :: "nat \<rightharpoonup> 'op ExecutionGraph option"
  graph_states :: "nat \<rightharpoonup> GraphState"

definition StreamEngine_init :: "'op StreamEngine" where
  "StreamEngine_init =
     \<lparr>next_graph_id = 0, submitted_graphs = Map.empty, graph_states = Map.empty\<rparr>"

definition submitGraph ::
    "'op ExecutionGraph option \<Rightarrow> 'op StreamEngine \<Rightarrow> exn + (nat \<times> 'op StreamEngine)" where
  "submitGraph graph e =
     (case graph of
        None \<Rightarrow> Inl (runtime_error ''Invalid execution graph submitted - null graph'')
      | Some g \<Rightarrow>
          if \<not> validate g
          then Inl (runtime_error ''Invalid execution graph submitted - validation failed'')
          else let ident = next_graph_id e in
            Inr (ident,
                 e\<lparr>next_graph_id := ident + 1,
                   submitted_graphs := (submitted_graphs e)(ident \<mapsto> graph),
                   graph_states := (graph_states e)(ident \<mapsto> SUBMITTED)\<rparr>))"

definition executeGraph :: "nat \<Rightarrow> 'op StreamEngine \<Rightarrow> (exn + unit) \<times> 'op StreamEngine" where
  "executeGraph graph_id e =
     (case submitted_graphs e graph_id of
        None \<Rightarrow>
          (Inl (runtime_error (''Graph ID '' @ to_string graph_id @ '' not found'')), e)
      | Some None \<Rightarrow> (Inl (runtime_error ''Graph pointer is null''), e)
      | Some (Some graph) \<Rightarrow>
          let e1 = e\<lparr>graph_states := (graph_states e)(graph_id \<mapsto> RUNNING)\<rparr>;
              topo_order = getTopologicalOrder graph
          in if topo_order = []
             then (Inl (runtime_error ''Graph contains cycles or is invalid''), e1)
             else (Inr (), e1\<lparr>graph_states := (graph_states e1)(graph_id \<mapsto> COMPLETED)\<rparr>))"

definition executeGraphAsync ::
    "nat \<Rightarrow> 'op StreamEngine \<Rightarrow> (exn + unit) \<times> 'op StreamEngine" where
  "executeGraphAsync graph_id e =
     (case submitted_graphs e graph_id of
        None \<Rightarrow>
          (Inl (runtime_error (''Graph ID '' @ to_string graph_id @ '' not found'')), e)
      | Some graph \<Rightarrow>
          let e1 = e\<lparr>graph_states := (graph_states e)(graph_id \<mapsto> RUNNING)\<rparr>
          in (Inr (), e1\<lparr>graph_states := (graph_states e1)(graph_id \<mapsto> COMPLETED)\<rparr>))"

definition stopGraph :: "nat \<Rightarrow> 'op StreamEngine \<Rightarrow> 'op StreamEngine" where
  "stopGraph graph_id e =
     (case submitted_graphs e graph_id of
        None \<Rightarrow> e
      | Some graph \<Rightarrow> e\<lparr>graph_states := (graph_states e)(graph_id \<mapsto> STOPPED)\<rparr>)"

definition getGraphState :: "'op StreamEngine \<Rightarrow> nat \<Rightarrow> GraphState" where
  "getGraphState e graph_id =
     (case graph_states e graph_id of Some st \<Rightarrow> st | None \<Rightarrow> UNKNOWN)"

definition isGraphRunning :: "'op StreamEngine \<Rightarrow> nat \<Rightarrow> bool" where
  "isGraphRunning e graph_id = (getGraphState e graph_id = RUNNING)"

definition removeGraph :: "nat \<Rightarrow> 'op StreamEngine \<Rightarrow> 'op StreamEngine" where
  "removeGraph graph_id e =
     (let e1 = stopGraph graph_id e in
        e1\<lparr>submitted_graphs := (submitted_graphs e1)(graph_id := None),
           graph_states := (graph_states e1)(graph_id := None)\<rparr>)"

text \<open>A sequence of calls of the public graph-management methods of one engine.\<close>

datatype 'op engine_call =
    SubmitGraph "'op ExecutionGraph option"
  | ExecuteGraph nat
  | ExecuteGraphAsync nat
  | StopGraph nat
  | RemoveGraph nat

fun engine_step :: "'op engine_call \<Rightarrow> 'op StreamEngine \<Rightarrow> 'op StreamEngine" where
  "engine_step (SubmitGraph graph) e =
     (case submitGraph graph e of Inl err \<Rightarrow> e | Inr (ident, e') \<Rightarrow> e')"
| "engine_step (ExecuteGraph graph_id) e = snd (executeGraph graph_id e)"
| "engine_step (ExecuteGraphAsync graph_id) e = snd (executeGraphAsync graph_id e)"
| "engine_step (StopGraph graph_id) e = stopGraph graph_id e"
| "engine_step (RemoveGraph graph_id) e = removeGraph graph_id e"

definition engine_run :: "'op engine_call list \<Rightarrow> 'op StreamEngine \<Rightarrow> 'op StreamEngine" where
  "engine_run calls e = fold engine_step calls e"

text \<open>Every graph id in use is below the id counter.\<close>

definition ids_below :: "'op StreamEngine \<Rightarrow> bool" where
  "ids_below e \<longleftrightarrow>
     (\<forall>k. submitted_graphs e k \<noteq> None \<or> graph_states e k \<noteq> None \<longrightarrow> k < next_graph_id e)"

section \<open>Functions (function/function.h, function.cpp, map_function.cpp,
  filter_function.cpp, sink_function.cpp)\<close>

text \<open>
  A \<open>FunctionResponse\<close> owns a \<open>std::vector<std::unique_ptr<MultiModalMessage>>\<close>: a list
  of message slots, \<open>None\<close> for a null pointer. The message type \<open>'m\<close> is left open.
\<close>

type_synonym 'm FunctionResponse = "'m option list"

definition addMessage :: "'m option \<Rightarrow> 'm FunctionResponse \<Rightarrow> 'm FunctionResponse" where
  "addMessage message response = response @ [message]"

definition clear :: "'m FunctionResponse \<Rightarrow> 'm FunctionResponse" where
  "clear response = []"

definition isEmpty :: "'m FunctionResponse \<Rightarrow> bool" where
  "isEmpty response = (response = [])"

datatype FunctionType =
    FT_None | FT_Source | FT_Map | FT_Filter | FT_Sink | FT_Join | FT_Aggregate
  | FT_Window | FT_TopK | FT_ITopK | FT_FlatMap | FT_KeyBy

text \<open>
  The base class; the derived classes are record extensions, so a function defined on
  the record scheme is the member that a derived class inherits without overriding it.
\<close>

record Function =
  name :: string
  ftype :: FunctionType

text \<open>
  \<open>Function::execute(response)\<close>: every slot is moved into the result, then the input is
  cleared. The pair returned is the result and the input response after the call.
\<close>

definition Function_execute ::
    "'m FunctionResponse \<Rightarrow> 'm FunctionResponse \<times> 'm FunctionResponse" where
  "Function_execute response =
     (fold (\<lambda>message result. addMessage message result) response [], clear response)"

text \<open>\<open>Function::execute(left, right)\<close>.\<close>

definition Function_execute2 ::
    "'z Function_scheme \<Rightarrow> 'm FunctionResponse \<Rightarrow> 'm FunctionResponse
       \<Rightarrow> exn + 'm FunctionResponse" where
  "Function_execute2 f left right =
     Inl (runtime_error (''Dual-input execute not implemented for function: '' @ name f))"

text \<open>
  The user callbacks are \<open>std::function\<close> objects, \<open>None\<close> when empty. A \<open>MapFunc\<close> gets
  the message slot by reference: it may change the message, reset the slot to null
  (\<open>Inr None\<close>) or throw. Effects of a callback outside the message are not modelled.
\<close>

type_synonym 'm MapFunc = "'m \<Rightarrow> exn + 'm option"
type_synonym 'm FilterFunc = "'m \<Rightarrow> exn + bool"
type_synonym 'm SinkFunc = "'m \<Rightarrow> exn + unit"

record 'm MapFunction = Function +
  map_func :: "'m MapFunc option"

record 'm FilterFunction = Function +
  filter_func :: "'m FilterFunc option"

record 'm SinkFunction = Function +
  sink_func :: "'m SinkFunc option"

text \<open>The loop of \<open>MapFunction::execute\<close> over the slots of the input.\<close>

fun map_messages ::
    "'m MapFunc option \<Rightarrow> 'm option list \<Rightarrow> 'm FunctionResponse \<Rightarrow> exn + 'm FunctionResponse"
where
  "map_messages mf [] result = Inr result"
| "map_messages mf (message # rest) result =
     (case (mf, message) of
        (Some f, Some m) \<Rightarrow>
          (case f m of
             Inl e \<Rightarrow> Inl e
           | Inr message' \<Rightarrow> map_messages mf rest (addMessage message' result))
      | _ \<Rightarrow> map_messages mf rest result)"

definition MapFunction_execute ::
    "'m MapFunction \<Rightarrow> 'm FunctionResponse
       \<Rightarrow> exn + ('m FunctionResponse \<times> 'm FunctionResponse)" where
  "MapFunction_execute fn response =
     (case map_messages (map_func fn) response [] of
        Inl e \<Rightarrow> Inl e
      | Inr result \<Rightarrow> Inr (result, clear response))"

text \<open>
  The loop of \<open>FilterFunction::execute\<close>; the condition is
  \<open>message && (!filter_func_ || filter_func_(*message))\<close>, evaluated left to right.
\<close>

fun filter_messages ::
    "'m FilterFunc option \<Rightarrow> 'm option list \<Rightarrow> 'm FunctionResponse
       \<Rightarrow> exn + 'm FunctionResponse"
where
  "filter_messages ff [] result = Inr result"
| "filter_messages ff (message # rest) result =
     (case message of
        None \<Rightarrow> filter_messages ff rest result
      | Some m \<Rightarrow>
          (case ff of
             None \<Rightarrow> filter_messages ff rest (addMessage message result)
           | Some p \<Rightarrow>
               (case p m of
                  Inl e \<Rightarrow> Inl e
                | Inr keep \<Rightarrow>
                    if keep then filter_messages ff rest (addMessage message result)
                    else filter_messages ff rest result)))"

definition FilterFunction_execute ::
    "'m FilterFunction \<Rightarrow> 'm FunctionResponse
       \<Rightarrow> exn + ('m FunctionResponse \<times> 'm FunctionResponse)" where
  "FilterFunction_execute fn response =
     (case filter_messages (filter_func fn) response [] of
        Inl e \<Rightarrow> Inl e
      | Inr result \<Rightarrow> Inr (result, clear response))"

text \<open>The loop of \<open>SinkFunction::execute\<close>; the result is always the empty response.\<close>

fun sink_messages :: "'m SinkFunc option \<Rightarrow> 'm option list \<Rightarrow> exn + unit" where
  "sink_messages sf [] = Inr ()"
| "sink_messages sf (message # rest) =
     (case (message, sf) of
        (Some m, Some f) \<Rightarrow>
          (case f m of Inl e \<Rightarrow> Inl e | Inr u \<Rightarrow> sink_messages sf rest)
      | _ \<Rightarrow> sink_messages sf rest)"

definition SinkFunction_execute ::
    "'m SinkFunction \<Rightarrow> 'm FunctionResponse
       \<Rightarrow> exn + ('m FunctionResponse \<times> 'm FunctionResponse)" where
  "SinkFunction_execute fn response =
     (case sink_messages (sink_func fn) response of
        Inl e \<Rightarrow> Inl e
      | Inr u \<Rightarrow> Inr ([], clear response))"

text \<open>
  Virtual dispatch of the two-input overload. No class of the sources overrides it
  (\<open>SourceFunction\<close>, \<open>MapFunction\<close>, \<open>FilterFunction\<close> and \<open>SinkFunction\<close> override the
  single-input \<open>execute\<close> only), so every variant resolves to the base implementation.
\<close>

datatype 'm function_object =
    BaseFunction Function
  | SourceFunctionObject Function
  | MapFunctionObject "'m MapFunction"
  | FilterFunctionObject "'m FilterFunction"
  | SinkFunctionObject "'m SinkFunction"

fun function_name :: "'m function_object \<Rightarrow> string" where
  "function_name (BaseFunction f) = name f"
| "function_name (SourceFunctionObject f) = name f"
| "function_name (MapFunctionObject f) = name f"
| "function_name (FilterFunctionObject f) = name f"
| "function_name (SinkFunctionObject f) = name f"

fun virtual_execute2 ::
    "'m function_object \<Rightarrow> 'm FunctionResponse \<Rightarrow> 'm FunctionResponse
       \<Rightarrow> exn + 'm FunctionResponse" where
  "virtual_execute2 (BaseFunction f) left right = Function_execute2 f left right"
| "virtual_execute2 (SourceFunctionObject f) left right = Function_execute2 f left right"
| "virtual_execute2 (MapFunctionObject f) left right = Function_execute2 f left right"
| "virtual_execute2 (FilterFunctionObject f) left right = Function_execute2 f left right"
| "virtual_execute2 (SinkFunctionObject f) left right = Function_execute2 f left right"

section \<open>Operators (map_operator.cpp, filter_operator.cpp, sink_operator.cpp,
  terminal_sink_operator.cpp)\<close>

text \<open>
  The class \<open>Response\<close> is not part of the sources. \<open>process\<close> only calls
  \<open>hasMessage()\<close>, \<open>getMessage()\<close> and \<open>getMessages()\<close> on its input, so an input record
  is what these three calls return, with nothing assumed about how they relate. That
  \<open>getMessage()\<close> moves the message out of the record is not modelled.
\<close>

record 'm Response =
  hasMessage :: bool
  getMessage :: "'m option"
  getMessages :: "'m option list"

text \<open>
  Modelled from the spec: the base class \<open>Operator\<close> (\<open>emit\<close>,
  \<open>incrementProcessedCount\<close>, \<open>incrementOutputCount\<close>) is not part of the sources. It
  keeps the counters, and \<open>emit(slot, record)\<close> enqueues the record on an outgoing edge;
  the field \<open>emitted\<close> logs the emissions in order.
\<close>

record 'm Operator =
  processed_count :: nat
  output_count :: nat
  emitted :: "(int \<times> 'm) list"

definition emit :: "int \<Rightarrow> 'm \<Rightarrow> ('m, 'z) Operator_scheme \<Rightarrow> ('m, 'z) Operator_scheme" where
  "emit slot message op = op\<lparr>emitted := emitted op @ [(slot, message)]\<rparr>"

definition incrementProcessedCount :: "('m, 'z) Operator_scheme \<Rightarrow> ('m, 'z) Operator_scheme" where
  "incrementProcessedCount op = op\<lparr>processed_count := processed_count op + 1\<rparr>"

definition incrementOutputCount :: "('m, 'z) Operator_scheme \<Rightarrow> ('m, 'z) Operator_scheme" where
  "incrementOutputCount op = op\<lparr>output_count := output_count op + 1\<rparr>"

record 'm MapOperator = "'m Operator" +
  map_function :: "'m MapFunction option"

record 'm FilterOperator = "'m Operator" +
  filter_function :: "'m FilterFunction option"

record 'm SinkOperator = "'m Operator" +
  sink_function :: "'m SinkFunction option"

record 'm TerminalSinkOperator = "'m Operator" +
  terminal_sink_func :: "'m SinkFunc"

text \<open>
  The loop over the output of the function in \<open>MapOperator::process\<close> and
  \<open>FilterOperator::process\<close>: every non-null message is emitted on slot 0.
\<close>

fun emit_outputs ::
    "'m option list \<Rightarrow> bool \<times> ('m, 'z) Operator_scheme \<Rightarrow> bool \<times> ('m, 'z) Operator_scheme"
where
  "emit_outputs [] (has_output, op) = (has_output, op)"
| "emit_outputs (output_message # rest) (has_output, op) =
     (case output_message of
        Some m \<Rightarrow> emit_outputs rest (True, incrementOutputCount (emit 0 m op))
      | None \<Rightarrow> emit_outputs rest (has_output, op))"

text \<open>
  \<open>process\<close> returns the value returned or the exception that leaves the call, and the
  operator after the call.
\<close>

definition MapOperator_process ::
    "'m MapOperator \<Rightarrow> 'm Response \<Rightarrow> int \<Rightarrow> (exn + bool) \<times> 'm MapOperator" where
  "MapOperator_process op input_record slot =
     (case map_function op of
        None \<Rightarrow> (Inl (runtime_error ''MapOperator: No MapFunction set''), op)
      | Some fn \<Rightarrow>
          if \<not> hasMessage input_record then (Inr False, op)
          else case getMessage input_record of
            None \<Rightarrow> (Inr False, op)
          | Some input_message \<Rightarrow>
              (case MapFunction_execute fn (addMessage (Some input_message) []) of
                 Inl e \<Rightarrow> (Inl e, op)
               | Inr (function_output, function_input) \<Rightarrow>
                   (case emit_outputs function_output (False, op) of
                      (has_output, op') \<Rightarrow> (Inr has_output, incrementProcessedCount op'))))"

definition FilterOperator_process ::
    "'m FilterOperator \<Rightarrow> 'm Response \<Rightarrow> int \<Rightarrow> (exn + bool) \<times> 'm FilterOperator" where
  "FilterOperator_process op input_record slot =
     (case filter_function op of
        None \<Rightarrow> (Inl (runtime_error ''FilterOperator: No FilterFunction set''), op)
      | Some fn \<Rightarrow>
          if \<not> hasMessage input_record then (Inr False, op)
          else case getMessage input_record of
            None \<Rightarrow> (Inr False, op)
          | Some input_message \<Rightarrow>
              (let op1 = incrementProcessedCount op in
               case FilterFunction_execute fn (addMessage (Some input_message) []) of
                 Inl e \<Rightarrow> (Inl e, op1)
               | Inr (function_output, function_input) \<Rightarrow>
                   (case emit_outputs function_output (False, op1) of
                      (has_output, op') \<Rightarrow> (Inr has_output, op'))))"

definition SinkOperator_process ::
    "'m SinkOperator \<Rightarrow> 'm Response \<Rightarrow> int \<Rightarrow> (exn + bool) \<times> 'm SinkOperator" where
  "SinkOperator_process op input_record slot =
     (case sink_function op of
        None \<Rightarrow> (Inl (runtime_error ''SinkOperator: No SinkFunction set''), op)
      | Some fn \<Rightarrow>
          if \<not> hasMessage input_record then (Inr False, op)
          else case getMessage input_record of
            None \<Rightarrow> (Inr False, op)
          | Some input_message \<Rightarrow>
              (case SinkFunction_execute fn (addMessage (Some input_message) []) of
                 Inl e \<Rightarrow> (Inl e, op)
               | Inr (function_output, function_input) \<Rightarrow>
                   (Inr True, incrementProcessedCount op)))"

text \<open>
  \<open>TerminalSinkOperator::process\<close> wraps the loop in \<open>try\<close>; the handler catches
  \<open>std::exception\<close> and returns false. Its callback is never empty (the constructor
  rejects an empty one).
\<close>

definition TerminalSinkOperator_process ::
    "'m TerminalSinkOperator \<Rightarrow> 'm Response \<Rightarrow> int
       \<Rightarrow> (exn + bool) \<times> 'm TerminalSinkOperator" where
  "TerminalSinkOperator_process op input_record slot =
     (let op1 = incrementProcessedCount op in
      case sink_messages (Some (terminal_sink_func op)) (getMessages input_record) of
        Inr u \<Rightarrow> (Inr True, incrementOutputCount op1)
      | Inl e \<Rightarrow> if is_std_exception e then (Inr False, op1) else (Inl e, op1))"

section \<open>Call sequences, edge endpoints and order of a list\<close>

text \<open>
  A sequence of calls of the three construction methods of a graph, and the check that
  every \<open>connectOperators\<close> call in it names ids that \<open>addOperator\<close> has returned before
  (all ids below the counter). \<open>endpoints_registered\<close> says that both endpoints of every
  edge of the forward adjacency are in the operator map. \<open>precedes a b xs\<close>: \<open>a\<close> occurs
  in \<open>xs\<close> and \<open>b\<close> occurs after its first occurrence.
\<close>

datatype 'op graph_call =
    AddOperator 'op
  | ConnectOperators nat nat
  | RemoveOperator nat

fun graph_step :: "'op graph_call \<Rightarrow> 'op ExecutionGraph \<Rightarrow> 'op ExecutionGraph" where
  "graph_step (AddOperator op) g = snd (addOperator op g)"
| "graph_step (ConnectOperators source target) g = connectOperators source target g"
| "graph_step (RemoveOperator ident) g = removeOperator ident g"

definition graph_run :: "'op graph_call list \<Rightarrow> 'op ExecutionGraph \<Rightarrow> 'op ExecutionGraph" where
  "graph_run calls g = fold graph_step calls g"

fun endpoints_assigned :: "'op graph_call list \<Rightarrow> 'op ExecutionGraph \<Rightarrow> bool" where
  "endpoints_assigned [] g = True"
| "endpoints_assigned (c # calls) g =
     ((case c of
         ConnectOperators source target \<Rightarrow>
           source < next_operator_id g \<and> target < next_operator_id g
       | _ \<Rightarrow> True)
      \<and> endpoints_assigned calls (graph_step c g))"

definition endpoints_registered :: "'op ExecutionGraph \<Rightarrow> bool" where
  "endpoints_registered g \<longleftrightarrow>
     (\<forall>(k, succs) \<in> set (adjacency_list g). \<forall>b \<in> set succs.
        k \<in> set (map fst (operators g)) \<and> b \<in> set (map fst (operators g)))"

fun precedes :: "nat \<Rightarrow> nat \<Rightarrow> nat list \<Rightarrow> bool" where
  "precedes a b [] = False"
| "precedes a b (x # xs) = (if x = a then b \<in> set xs else precedes a b xs)"

section \<open>Invariants used in the proofs\<close>

text \<open>
  \<open>transposed\<close> and \<open>unassigned_clean\<close>: the reverse adjacency is the transpose of the
  forward adjacency, and ids not handed out yet have no edges. \<open>dfs_inv\<close>: the finished
  nodes are exactly the visited nodes off the recursion stack, each once, and every
  finished node has all its successors finished before it. \<open>dfs_ext\<close>: what a search
  that reports no cycle does to the state. \<open>same_flags\<close>: two results agree up to the
  order vector.
\<close>

definition transposed :: "'op ExecutionGraph \<Rightarrow> bool" where
  "transposed g \<longleftrightarrow>
     (\<forall>a b. count_list (getSuccessors g a) b = count_list (getPredecessors g b) a)"

definition unassigned_clean :: "'op ExecutionGraph \<Rightarrow> bool" where
  "unassigned_clean g \<longleftrightarrow>
     (\<forall>a. next_operator_id g \<le> a \<longrightarrow> getSuccessors g a = [] \<and> getPredecessors g a = [])"

definition dfs_inv :: "'op ExecutionGraph \<Rightarrow> dfs_state \<Rightarrow> bool" where
  "dfs_inv g s \<longleftrightarrow>
     (case s of (visited, rec_stack, topo_order) \<Rightarrow>
        (\<forall>x. x \<in> set topo_order \<longrightarrow> visited x \<and> \<not> rec_stack x)
      \<and> (\<forall>x. visited x \<and> \<not> rec_stack x \<longrightarrow> x \<in> set topo_order)
      \<and> (\<forall>x. rec_stack x \<longrightarrow> visited x)
      \<and> distinct topo_order
      \<and> (\<forall>a b. a \<in> set topo_order \<and> b \<in> set (getSuccessors g a)
             \<longrightarrow> precedes a b (rev topo_order)))"

definition dfs_ext :: "dfs_state \<Rightarrow> dfs_state \<Rightarrow> bool" where
  "dfs_ext s s' \<longleftrightarrow>
     (case (s, s') of ((visited, rec_stack, topo_order), (visited', rec_stack', topo_order')) \<Rightarrow>
        (\<forall>x. visited x \<longrightarrow> visited' x) \<and> rec_stack' = rec_stack
      \<and> set topo_order \<subseteq> set topo_order')"

definition same_flags :: "bool \<times> dfs_state \<Rightarrow> bool \<times> dfs_state \<Rightarrow> bool" where
  "same_flags x y \<longleftrightarrow>
     fst x = fst y \<and> fst (snd x) = fst (snd y) \<and> fst (snd (snd x)) = fst (snd (snd y))"

section \<open>Example inputs\<close>

definition drop_message :: "nat MapFunc" where
  "drop_message m = Inr None"

definition unset_map :: "nat MapFunction" where
  "unset_map = \<lparr>name = ''m'', ftype = FT_Map, map_func = None\<rparr>"

definition dropping_map :: "nat MapFunction" where
  "dropping_map = \<lparr>name = ''m'', ftype = FT_Map, map_func = Some drop_message\<rparr>"

definition double_message :: "nat MapFunc" where
  "double_message m = Inr (Some (2 * m))"

definition doubling_map :: "nat MapFunction" where
  "doubling_map = \<lparr>name = ''double'', ftype = FT_Map, map_func = Some double_message\<rparr>"

definition unconfigured_map_operator :: "nat MapOperator" where
  "unconfigured_map_operator =
     \<lparr>processed_count = 0, output_count = 0, emitted = [], map_function = None\<rparr>"

definition unconfigured_filter_operator :: "nat FilterOperator" where
  "unconfigured_filter_operator =
     \<lparr>processed_count = 0, output_count = 0, emitted = [], filter_function = None\<rparr>"

definition unconfigured_sink_operator :: "nat SinkOperator" where
  "unconfigured_sink_operator =
     \<lparr>processed_count = 0, output_count = 0, emitted = [], sink_function = None\<rparr>"

definition one_message :: "nat Response" where
  "one_message = \<lparr>hasMessage = True, getMessage = Some 7, getMessages = [Some 7]\<rparr>"

definition accept_message :: "nat SinkFunc" where
  "accept_message m = Inr ()"

definition collecting_sink_operator :: "nat SinkOperator" where
  "collecting_sink_operator =
     \<lparr>processed_count = 0, output_count = 0, emitted = [],
      sink_function = Some \<lparr>name = ''sink_output'', ftype = FT_Sink,
                             sink_func = Some accept_message\<rparr>\<rparr>"

definition engine_with_empty_graph :: "unit StreamEngine" where
  "engine_with_empty_graph = engine_run [SubmitGraph (Some ExecutionGraph_init)] StreamEngine_init"

definition engine_with_completed_graph :: "unit StreamEngine" where
  "engine_with_completed_graph =
     engine_run [SubmitGraph (Some ExecutionGraph_init), ExecuteGraphAsync 0] StreamEngine_init"

definition doubling_map_operator :: "nat MapOperator" where
  "doubling_map_operator =
     \<lparr>processed_count = 0, output_count = 0, emitted = [], map_function = Some doubling_map\<rparr>"

definition keep_all_filter_operator :: "nat FilterOperator" where
  "keep_all_filter_operator =
     \<lparr>processed_count = 0, output_count = 0, emitted = [],
      filter_function = Some \<lparr>name = ''keep'', ftype = FT_Filter, filter_func = None\<rparr>\<rparr>"

definition terminal_sink_operator :: "nat TerminalSinkOperator" where
  "terminal_sink_operator =
     \<lparr>processed_count = 0, output_count = 0, emitted = [],
      terminal_sink_func = accept_message\<rparr>"

definition dangling_calls :: "unit graph_call list" where
  "dangling_calls = [ConnectOperators 5 0, AddOperator ()]"

definition diamond_calls :: "unit graph_call list" where
  "diamond_calls =
     [AddOperator (), AddOperator (), AddOperator (), AddOperator (),
      ConnectOperators 0 1, ConnectOperators 0 1, ConnectOperators 0 2,
      ConnectOperators 1 3, ConnectOperators 2 3, RemoveOperator 2]"

definition pipeline_graph :: "unit ExecutionGraph" where
  "pipeline_graph =
     graph_run [AddOperator (), AddOperator (), AddOperator (),
                ConnectOperators 0 1, ConnectOperators 1 2, ConnectOperators 0 2]
       ExecutionGraph_init"

definition dangling_graph :: "unit ExecutionGraph" where
  "dangling_graph = graph_run [AddOperator (), ConnectOperators 0 5] ExecutionGraph_init"

section \<open>Properties\<close>

lemma fold_addMessage: "fold (\<lambda>message result. addMessage message result) xs acc = acc @ xs"
  by (induction xs arbitrary: acc) (simp_all add: addMessage_def)

text \<open>
  Claim C10. Whatever the variant of the function (base, source, map, filter or sink) and
  whatever the two inputs, the two-input \<open>execute\<close> throws the runtime error that names
  the function; the single-input base implementation returns every slot of its input, in
  order and unchanged, and leaves the input empty.
\<close>

theorem function_execute2_always_throws:
  "virtual_execute2 fn left right =
     Inl (runtime_error (''Dual-input execute not implemented for function: '' @ function_name fn))
   \<and> Function_execute response = (response, [])"
proof
  show "virtual_execute2 fn left right =
     Inl (runtime_error (''Dual-input execute not implemented for function: '' @ function_name fn))"
    by (cases fn) (simp_all add: Function_execute2_def)
next
  have "fold (\<lambda>message result. addMessage message result) response [] = response"
    by (simp add: fold_addMessage)
  then show "Function_execute response = (response, [])"
    by (simp add: Function_execute_def clear_def)
qed

text \<open>
  Claim C9, counterexample. With no map callback set, one message goes in and none comes
  out; with a callback that resets the slot, the null slot is not removed but stays in the
  result.
\<close>

theorem map_execute_counterexample:
  "MapFunction_execute unset_map [Some 7] = Inr ([], [])
   \<and> MapFunction_execute dropping_map [Some 7] = Inr ([None], [])"
  by (simp add: MapFunction_execute_def unset_map_def dropping_map_def drop_message_def
      addMessage_def clear_def)

lemma map_messages_unset: "map_messages None response result = Inr result"
  by (induction response arbitrary: result) (simp_all split: option.splits)

lemma map_messages_total:
  assumes "\<And>m. Some m \<in> set response \<Longrightarrow> f m = Inr (g m)"
  shows "map_messages (Some f) response result
           = Inr (result @ map g (List.map_filter id response))"
  using assms
proof (induction response arbitrary: result)
  case Nil
  then show ?case by (simp add: List.map_filter_simps)
next
  case (Cons message rest)
  show ?case
  proof (cases message)
    case None
    then show ?thesis using Cons by (simp add: List.map_filter_simps)
  next
    case (Some m)
    then have "f m = Inr (g m)" using Cons.prems by simp
    then show ?thesis using Some Cons by (simp add: List.map_filter_simps addMessage_def)
  qed
qed

text \<open>
  Claim C9, amended. With no map callback set the result of \<open>MapFunction::execute\<close> is
  empty. With a callback that does not throw on the messages of the input, the result has
  one slot for every non-null slot of the input, in input order, holding what the callback
  left in the slot (null included); null input slots are dropped. The input is left empty.
\<close>

theorem map_execute_result:
  "(map_func fn = None \<longrightarrow> MapFunction_execute fn response = Inr ([], []))
   \<and> (map_func fn = Some f \<and> (\<forall>m. Some m \<in> set response \<longrightarrow> f m = Inr (g m))
        \<longrightarrow> MapFunction_execute fn response
              = Inr (map g (List.map_filter id response), []))"
proof (intro conjI impI)
  assume "map_func fn = None"
  then show "MapFunction_execute fn response = Inr ([], [])"
    by (simp add: MapFunction_execute_def map_messages_unset clear_def)
next
  assume a: "map_func fn = Some f \<and> (\<forall>m. Some m \<in> set response \<longrightarrow> f m = Inr (g m))"
  then have "map_messages (Some f) response [] = Inr ([] @ map g (List.map_filter id response))"
    by (intro map_messages_total) blast
  with a show "MapFunction_execute fn response = Inr (map g (List.map_filter id response), [])"
    by (simp add: MapFunction_execute_def clear_def)
qed

text \<open>
  Claim C9, witness: a doubling callback on a response with a null slot in the middle, and
  the same response with no callback set.
\<close>

theorem map_execute_result_witness:
  "map_func doubling_map = Some double_message
   \<and> MapFunction_execute doubling_map [Some 1, None, Some 3] = Inr ([Some 2, Some 6], [])
   \<and> map_func unset_map = None
   \<and> MapFunction_execute unset_map [Some 1, None, Some 3] = Inr ([], [])"
  using map_execute_result [of doubling_map "[Some 1, None, Some 3]" double_message "\<lambda>m. Some (2 * m)"]
        map_execute_result [of unset_map "[Some 1, None, Some 3]" double_message "\<lambda>m. Some (2 * m)"]
  by (simp add: doubling_map_def unset_map_def double_message_def List.map_filter_simps)

text \<open>
  Claim C1, counterexample. A map operator with an empty function slot does not return
  false: the call ends with a runtime error that reaches the caller.
\<close>

theorem process_unconfigured_counterexample:
  "fst (MapOperator_process unconfigured_map_operator one_message 0)
     = Inl (runtime_error ''MapOperator: No MapFunction set'')
   \<and> fst (MapOperator_process unconfigured_map_operator one_message 0) \<noteq> Inr False"
  by (simp add: MapOperator_process_def unconfigured_map_operator_def)

text \<open>
  Claim C1, amended. For the map, filter and sink operator alike, if the function slot is
  empty then \<open>process\<close> throws a runtime error naming the missing function to its
  caller, for every input record and slot, and leaves the operator unchanged; no value is
  returned.
\<close>

theorem process_unconfigured_throws:
  assumes "map_function mop = None" and "filter_function fop = None"
    and "sink_function sop = None"
  shows "MapOperator_process mop input_record slot
           = (Inl (runtime_error ''MapOperator: No MapFunction set''), mop)
       \<and> FilterOperator_process fop input_record slot
           = (Inl (runtime_error ''FilterOperator: No FilterFunction set''), fop)
       \<and> SinkOperator_process sop input_record slot
           = (Inl (runtime_error ''SinkOperator: No SinkFunction set''), sop)"
  using assms
  by (simp add: MapOperator_process_def FilterOperator_process_def SinkOperator_process_def)

text \<open>
  Claim C1, witness: the three operators as their one-argument constructors build them.
\<close>

theorem process_unconfigured_throws_witness:
  "map_function unconfigured_map_operator = None
   \<and> filter_function unconfigured_filter_operator = None
   \<and> sink_function unconfigured_sink_operator = None
   \<and> MapOperator_process unconfigured_map_operator one_message 0
       = (Inl (runtime_error ''MapOperator: No MapFunction set''), unconfigured_map_operator)
   \<and> FilterOperator_process unconfigured_filter_operator one_message 0
       = (Inl (runtime_error ''FilterOperator: No FilterFunction set''),
          unconfigured_filter_operator)
   \<and> SinkOperator_process unconfigured_sink_operator one_message 0
       = (Inl (runtime_error ''SinkOperator: No SinkFunction set''), unconfigured_sink_operator)"
proof -
  have m: "map_function unconfigured_map_operator = None"
    by (simp add: unconfigured_map_operator_def)
  have f: "filter_function unconfigured_filter_operator = None"
    by (simp add: unconfigured_filter_operator_def)
  have s: "sink_function unconfigured_sink_operator = None"
    by (simp add: unconfigured_sink_operator_def)
  show ?thesis
    using process_unconfigured_throws [OF m f s, of one_message 0] m f s by simp
qed

lemma emit_outputs_emitted:
  "emit_outputs outs (h, op) = (h', op') \<Longrightarrow>
     emitted op' = emitted op @ map (Pair 0) (List.map_filter id outs)
     \<and> (h' \<longleftrightarrow> h \<or> List.map_filter id outs \<noteq> [])"
proof (induction outs arbitrary: h op)
  case Nil
  then show ?case by (simp add: List.map_filter_simps)
next
  case (Cons out rest)
  show ?case
  proof (cases out)
    case None
    with Cons show ?thesis by (simp add: List.map_filter_simps)
  next
    case (Some m)
    with Cons.prems have
      "emit_outputs rest (True, incrementOutputCount (emit 0 m op)) = (h', op')" by simp
    from Cons.IH [OF this] Some show ?thesis
      by (simp add: List.map_filter_simps emit_def incrementOutputCount_def)
  qed
qed

lemma emit_outputs_flag:
  "emit_outputs outs (False, op) = (h', op') \<Longrightarrow>
     (h' \<longleftrightarrow> length (emitted op) < length (emitted op'))"
  by (drule emit_outputs_emitted) auto

text \<open>
  Claim C3, counterexample. A sink operator that consumes a message returns true although
  it emits nothing.
\<close>

theorem sink_process_counterexample:
  "fst (SinkOperator_process collecting_sink_operator one_message 0) = Inr True
   \<and> emitted (snd (SinkOperator_process collecting_sink_operator one_message 0))
       = emitted collecting_sink_operator"
  by (simp add: SinkOperator_process_def collecting_sink_operator_def one_message_def
      SinkFunction_execute_def addMessage_def accept_message_def incrementProcessedCount_def)

text \<open>
  Claim C3, amended. When \<open>process\<close> of a map or filter operator returns, it returns
  true if and only if at least one message was emitted during the call. A sink operator
  never emits; when it returns, it returns true if and only if the input record held a
  message. A terminal sink operator never emits either, and returns true if and only if
  its callback threw on no message.
\<close>

theorem process_result_emission:
  "(MapOperator_process mop input_record slot = (Inr b, mop')
      \<longrightarrow> (b \<longleftrightarrow> length (emitted mop) < length (emitted mop')))
   \<and> (FilterOperator_process fop input_record slot = (Inr b, fop')
      \<longrightarrow> (b \<longleftrightarrow> length (emitted fop) < length (emitted fop')))
   \<and> (SinkOperator_process sop input_record slot = (Inr b, sop')
      \<longrightarrow> emitted sop' = emitted sop
          \<and> (b \<longleftrightarrow> hasMessage input_record \<and> getMessage input_record \<noteq> None))
   \<and> (TerminalSinkOperator_process tsop input_record slot = (Inr b, tsop')
      \<longrightarrow> emitted tsop' = emitted tsop
          \<and> (b \<longleftrightarrow> sink_messages (Some (terminal_sink_func tsop)) (getMessages input_record)
                     = Inr ()))"
proof (intro conjI impI)
  assume "MapOperator_process mop input_record slot = (Inr b, mop')"
  then show "b \<longleftrightarrow> length (emitted mop) < length (emitted mop')"
    by (auto simp: MapOperator_process_def incrementProcessedCount_def
        split: option.splits if_splits sum.splits prod.splits dest!: emit_outputs_flag)
next
  assume "FilterOperator_process fop input_record slot = (Inr b, fop')"
  then show "b \<longleftrightarrow> length (emitted fop) < length (emitted fop')"
    by (auto simp: FilterOperator_process_def incrementProcessedCount_def Let_def
        split: option.splits if_splits sum.splits prod.splits dest!: emit_outputs_flag)
next
  assume a: "SinkOperator_process sop input_record slot = (Inr b, sop')"
  then show "emitted sop' = emitted sop"
    by (auto simp: SinkOperator_process_def incrementProcessedCount_def
        split: option.splits if_splits sum.splits prod.splits)
  from a show "b \<longleftrightarrow> hasMessage input_record \<and> getMessage input_record \<noteq> None"
    by (auto simp: SinkOperator_process_def incrementProcessedCount_def
        split: option.splits if_splits sum.splits prod.splits)
next
  assume a: "TerminalSinkOperator_process tsop input_record slot = (Inr b, tsop')"
  then show "emitted tsop' = emitted tsop"
    by (auto simp: TerminalSinkOperator_process_def incrementProcessedCount_def
        incrementOutputCount_def Let_def split: sum.splits if_splits)
  from a show "b \<longleftrightarrow>
      sink_messages (Some (terminal_sink_func tsop)) (getMessages input_record) = Inr ()"
    by (auto simp: TerminalSinkOperator_process_def Let_def split: sum.splits if_splits)
qed

text \<open>
  Claim C3, witness: one message through a map, a filter, a sink and a terminal sink
  operator.
\<close>

theorem process_result_emission_witness:
  "fst (MapOperator_process doubling_map_operator one_message 0) = Inr True
   \<and> emitted (snd (MapOperator_process doubling_map_operator one_message 0)) = [(0, 14)]
   \<and> length (emitted doubling_map_operator)
       < length (emitted (snd (MapOperator_process doubling_map_operator one_message 0)))
   \<and> fst (FilterOperator_process keep_all_filter_operator one_message 0) = Inr True
   \<and> length (emitted keep_all_filter_operator)
       < length (emitted (snd (FilterOperator_process keep_all_filter_operator one_message 0)))
   \<and> fst (SinkOperator_process collecting_sink_operator one_message 0) = Inr True
   \<and> emitted (snd (SinkOperator_process collecting_sink_operator one_message 0))
       = emitted collecting_sink_operator
   \<and> fst (TerminalSinkOperator_process terminal_sink_operator one_message 0) = Inr True
   \<and> emitted (snd (TerminalSinkOperator_process terminal_sink_operator one_message 0))
       = emitted terminal_sink_operator"
proof -
  have m0: "MapOperator_process doubling_map_operator one_message 0
     = (Inr True, \<lparr>processed_count = 1, output_count = 1, emitted = [(0, 14)],
                   map_function = Some doubling_map\<rparr>)"
    by (simp add: MapOperator_process_def doubling_map_operator_def one_message_def
        MapFunction_execute_def doubling_map_def double_message_def addMessage_def
        emit_def incrementOutputCount_def incrementProcessedCount_def clear_def)
  have m1: "fst (MapOperator_process doubling_map_operator one_message 0) = Inr True"
    and m2: "emitted (snd (MapOperator_process doubling_map_operator one_message 0)) = [(0, 14)]"
    by (simp_all add: m0)
  have m: "MapOperator_process doubling_map_operator one_message 0
     = (Inr True, snd (MapOperator_process doubling_map_operator one_message 0))"
    using m1 by (metis prod.collapse)
  have f1: "fst (FilterOperator_process keep_all_filter_operator one_message 0) = Inr True"
    by (simp add: FilterOperator_process_def keep_all_filter_operator_def one_message_def
        FilterFunction_execute_def addMessage_def
        emit_def incrementOutputCount_def incrementProcessedCount_def clear_def)
  have f: "FilterOperator_process keep_all_filter_operator one_message 0
     = (Inr True, snd (FilterOperator_process keep_all_filter_operator one_message 0))"
    using f1 by (metis prod.collapse)
  have s1: "fst (SinkOperator_process collecting_sink_operator one_message 0) = Inr True"
    by (simp add: SinkOperator_process_def collecting_sink_operator_def one_message_def
      SinkFunction_execute_def addMessage_def accept_message_def incrementProcessedCount_def)
  have s: "SinkOperator_process collecting_sink_operator one_message 0
     = (Inr True, snd (SinkOperator_process collecting_sink_operator one_message 0))"
    using s1 by (metis prod.collapse)
  have t1: "fst (TerminalSinkOperator_process terminal_sink_operator one_message 0) = Inr True"
    by (simp add: TerminalSinkOperator_process_def terminal_sink_operator_def one_message_def
      accept_message_def incrementProcessedCount_def incrementOutputCount_def)
  have t: "TerminalSinkOperator_process terminal_sink_operator one_message 0
     = (Inr True, snd (TerminalSinkOperator_process terminal_sink_operator one_message 0))"
    using t1 by (metis prod.collapse)
  show ?thesis
    using process_result_emission [of doubling_map_operator one_message 0 True
        "snd (MapOperator_process doubling_map_operator one_message 0)"
        keep_all_filter_operator
        "snd (FilterOperator_process keep_all_filter_operator one_message 0)"
        collecting_sink_operator
        "snd (SinkOperator_process collecting_sink_operator one_message 0)"
        terminal_sink_operator
        "snd (TerminalSinkOperator_process terminal_sink_operator one_message 0)"]
      m f s t m1 m2 f1 s1 t1
    by blast
qed

lemma validate_no_operators: "operators g = [] \<Longrightarrow> validate g"
  by (simp add: validate_def isValid_def detectCycles_def)

lemma getTopologicalOrder_no_operators: "operators g = [] \<Longrightarrow> getTopologicalOrder g = []"
  by (simp add: getTopologicalOrder_def)

lemma engine_with_empty_graph_eq:
  "engine_with_empty_graph =
     \<lparr>next_graph_id = 1, submitted_graphs = [0 \<mapsto> Some ExecutionGraph_init],
      graph_states = [0 \<mapsto> SUBMITTED]\<rparr>"
  by (simp add: engine_with_empty_graph_def engine_run_def submitGraph_def
      validate_no_operators ExecutionGraph_init_def StreamEngine_init_def)

text \<open>
  Claim C2 at the graph with no operators: \<open>validate\<close> is true and the graph is
  submitted, but \<open>executeGraph\<close> throws and leaves the state at Running, while
  \<open>executeGraphAsync\<close> on the same engine ends in Completed.
\<close>

theorem empty_graph_execute_throws:
  "validate (ExecutionGraph_init :: unit ExecutionGraph)
   \<and> getGraphState engine_with_empty_graph 0 = SUBMITTED
   \<and> fst (executeGraph 0 engine_with_empty_graph)
       = Inl (runtime_error ''Graph contains cycles or is invalid'')
   \<and> getGraphState (snd (executeGraph 0 engine_with_empty_graph)) 0 = RUNNING
   \<and> getGraphState (snd (executeGraphAsync 0 engine_with_empty_graph)) 0 = COMPLETED"
  by (simp add: engine_with_empty_graph_eq validate_no_operators getGraphState_def
      executeGraph_def executeGraphAsync_def getTopologicalOrder_no_operators
      ExecutionGraph_init_def)

text \<open>
  Claim C8, counterexample. Stopping a graph whose state is Completed changes the state to
  Stopped.
\<close>

theorem stop_completed_counterexample:
  "getGraphState engine_with_completed_graph 0 = COMPLETED
   \<and> getGraphState (stopGraph 0 engine_with_completed_graph) 0 = STOPPED"
  by (simp add: engine_with_completed_graph_def engine_run_def submitGraph_def
      validate_no_operators ExecutionGraph_init_def StreamEngine_init_def
      executeGraphAsync_def getGraphState_def stopGraph_def)

text \<open>
  Claim C8, amended. \<open>stopGraph\<close> on a registered graph sets its state to Stopped
  whatever the state was; on a graph whose state is already Stopped the state returned by
  \<open>getGraphState\<close> is unchanged.
\<close>

theorem stopGraph_sets_stopped:
  "(submitted_graphs e graph_id \<noteq> None
      \<longrightarrow> getGraphState (stopGraph graph_id e) graph_id = STOPPED)
   \<and> (getGraphState e graph_id = STOPPED
      \<longrightarrow> getGraphState (stopGraph graph_id e) graph_id = getGraphState e graph_id)"
proof (cases "submitted_graphs e graph_id")
  case None
  then have "stopGraph graph_id e = e" by (simp add: stopGraph_def)
  with None show ?thesis by simp
next
  case (Some graph)
  then have "graph_states (stopGraph graph_id e) graph_id = Some STOPPED"
    by (simp add: stopGraph_def)
  then have "getGraphState (stopGraph graph_id e) graph_id = STOPPED"
    by (simp add: getGraphState_def)
  then show ?thesis by simp
qed

text \<open>
  Claim C8, witness: a completed graph is stopped, then stopped again.
\<close>

theorem stopGraph_sets_stopped_witness:
  "submitted_graphs engine_with_completed_graph 0 \<noteq> None
   \<and> getGraphState (stopGraph 0 engine_with_completed_graph) 0 = STOPPED
   \<and> getGraphState (stopGraph 0 (stopGraph 0 engine_with_completed_graph)) 0
       = getGraphState (stopGraph 0 engine_with_completed_graph) 0"
proof -
  have r: "submitted_graphs engine_with_completed_graph 0 \<noteq> None"
    by (simp add: engine_with_completed_graph_def engine_run_def submitGraph_def
      validate_no_operators ExecutionGraph_init_def StreamEngine_init_def
      executeGraphAsync_def)
  have s: "getGraphState (stopGraph 0 engine_with_completed_graph) 0 = STOPPED"
    using stopGraph_sets_stopped [of engine_with_completed_graph 0] r by simp
  show ?thesis
    using stopGraph_sets_stopped [of "stopGraph 0 engine_with_completed_graph" 0] r s by simp
qed

lemma ids_below_init: "ids_below StreamEngine_init"
  by (simp add: ids_below_def StreamEngine_init_def)

lemma engine_step_ids_below: "ids_below e \<Longrightarrow> ids_below (engine_step c e)"
proof (cases c)
  case (SubmitGraph graph)
  assume "ids_below e"
  then show ?thesis using SubmitGraph
    by (auto simp: ids_below_def submitGraph_def Let_def split: option.splits if_splits
        intro: less_SucI)
next
  case (ExecuteGraph k)
  assume "ids_below e"
  then show ?thesis using ExecuteGraph
    by (auto simp: ids_below_def executeGraph_def Let_def split: option.splits if_splits)
next
  case (ExecuteGraphAsync k)
  assume "ids_below e"
  then show ?thesis using ExecuteGraphAsync
    by (auto simp: ids_below_def executeGraphAsync_def Let_def split: option.splits if_splits)
next
  case (StopGraph k)
  assume "ids_below e"
  then show ?thesis using StopGraph
    by (auto simp: ids_below_def stopGraph_def split: option.splits if_splits)
next
  case (RemoveGraph k)
  assume "ids_below e"
  then show ?thesis using RemoveGraph
    by (auto simp: ids_below_def removeGraph_def stopGraph_def Let_def
        split: option.splits if_splits)
qed

lemma engine_step_next_mono: "next_graph_id e \<le> next_graph_id (engine_step c e)"
  by (cases c)
    (auto simp: submitGraph_def executeGraph_def executeGraphAsync_def stopGraph_def
      removeGraph_def Let_def split: option.splits if_splits)

lemma engine_run_ids_below: "ids_below e \<Longrightarrow> ids_below (engine_run calls e)"
  unfolding engine_run_def
  by (induction calls arbitrary: e) (simp_all add: engine_step_ids_below)

lemma engine_run_next_mono: "next_graph_id e \<le> next_graph_id (engine_run calls e)"
  unfolding engine_run_def
proof (induction calls arbitrary: e)
  case Nil
  then show ?case by simp
next
  case (Cons c calls)
  have "next_graph_id e \<le> next_graph_id (engine_step c e)" by (rule engine_step_next_mono)
  also have "\<dots> \<le> next_graph_id (fold engine_step calls (engine_step c e))" by (rule Cons.IH)
  finally show ?case by simp
qed

lemma submitGraph_Inr:
  "submitGraph graph e = Inr (ident, e') \<Longrightarrow>
     ident = next_graph_id e \<and> next_graph_id e' = Suc ident
     \<and> submitted_graphs e' = (submitted_graphs e)(ident \<mapsto> graph)
     \<and> graph_states e' = (graph_states e)(ident \<mapsto> SUBMITTED)"
  by (auto simp: submitGraph_def Let_def split: option.splits if_splits)

text \<open>
  Claim C7. \<open>submitGraph\<close> throws if and only if the graph pointer is null or
  \<open>validate\<close> is false. On an engine reached from a new engine by any calls of its public
  methods, a successful submission returns an id that was not in use and is greater than
  every id in use, records the graph under it with state Submitted, changes no other entry,
  and every id returned by a later submission is greater.
\<close>

theorem submitGraph_contract:
  "((\<exists>err. submitGraph graph e = Inl err)
      \<longleftrightarrow> graph = None \<or> (\<exists>g. graph = Some g \<and> \<not> validate g))
   \<and> (e = engine_run calls StreamEngine_init \<and> submitGraph graph e = Inr (ident, e')
      \<longrightarrow> submitted_graphs e ident = None \<and> graph_states e ident = None
          \<and> submitted_graphs e' ident = Some graph
          \<and> getGraphState e' ident = SUBMITTED
          \<and> (\<forall>k. k \<noteq> ident \<longrightarrow> submitted_graphs e' k = submitted_graphs e k
                               \<and> graph_states e' k = graph_states e k)
          \<and> (\<forall>k. submitted_graphs e k \<noteq> None \<longrightarrow> k < ident)
          \<and> (\<forall>later graph2 ident2 e2.
                submitGraph graph2 (engine_run later e') = Inr (ident2, e2) \<longrightarrow> ident < ident2))"
proof (intro conjI impI)
  show "(\<exists>err. submitGraph graph e = Inl err)
      \<longleftrightarrow> graph = None \<or> (\<exists>g. graph = Some g \<and> \<not> validate g)"
    by (auto simp: submitGraph_def Let_def split: option.splits)
next
  assume a: "e = engine_run calls StreamEngine_init \<and> submitGraph graph e = Inr (ident, e')"
  then have inv: "ids_below e" by (simp add: engine_run_ids_below ids_below_init)
  from a have sub: "submitGraph graph e = Inr (ident, e')" by blast
  have s: "ident = next_graph_id e" "next_graph_id e' = Suc ident"
    "submitted_graphs e' = (submitted_graphs e)(ident \<mapsto> graph)"
    "graph_states e' = (graph_states e)(ident \<mapsto> SUBMITTED)"
    using submitGraph_Inr [OF sub] by simp_all
  show "submitted_graphs e ident = None" "graph_states e ident = None"
    using inv s(1) by (auto simp: ids_below_def)
  show "submitted_graphs e' ident = Some graph" using s(3) by simp
  show "getGraphState e' ident = SUBMITTED" using s(4) by (simp add: getGraphState_def)
  show "\<forall>k. k \<noteq> ident \<longrightarrow> submitted_graphs e' k = submitted_graphs e k
                               \<and> graph_states e' k = graph_states e k"
    using s(3,4) by simp
  show "\<forall>k. submitted_graphs e k \<noteq> None \<longrightarrow> k < ident"
    using inv s(1) by (auto simp: ids_below_def)
  show "\<forall>later graph2 ident2 e2.
          submitGraph graph2 (engine_run later e') = Inr (ident2, e2) \<longrightarrow> ident < ident2"
  proof (intro allI impI)
    fix later graph2 ident2 e2
    assume "submitGraph graph2 (engine_run later e') = Inr (ident2, e2)"
    then have "ident2 = next_graph_id (engine_run later e')"
      using submitGraph_Inr by blast
    moreover have "next_graph_id e' \<le> next_graph_id (engine_run later e')"
      by (rule engine_run_next_mono)
    ultimately show "ident < ident2" using s(2) by simp
  qed
qed

text \<open>
  Claim C7, witness: a second submission to an engine that holds one graph.
\<close>

theorem submitGraph_contract_witness:
  "engine_with_empty_graph = engine_run [SubmitGraph (Some ExecutionGraph_init)] StreamEngine_init
   \<and> submitGraph (Some ExecutionGraph_init) engine_with_empty_graph
       = Inr (1, \<lparr>next_graph_id = 2,
                  submitted_graphs = [0 \<mapsto> Some ExecutionGraph_init, 1 \<mapsto> Some ExecutionGraph_init],
                  graph_states = [0 \<mapsto> SUBMITTED, 1 \<mapsto> SUBMITTED]\<rparr>)
   \<and> submitted_graphs engine_with_empty_graph 1 = None
   \<and> submitted_graphs engine_with_empty_graph 0 \<noteq> None \<and> (0::nat) < 1"
proof -
  have a: "engine_with_empty_graph
             = engine_run [SubmitGraph (Some ExecutionGraph_init)] StreamEngine_init"
    by (simp add: engine_with_empty_graph_def)
  have b: "submitGraph (Some ExecutionGraph_init) engine_with_empty_graph
       = Inr (1, \<lparr>next_graph_id = 2,
                  submitted_graphs = [0 \<mapsto> Some ExecutionGraph_init, 1 \<mapsto> Some ExecutionGraph_init],
                  graph_states = [0 \<mapsto> SUBMITTED, 1 \<mapsto> SUBMITTED]\<rparr>)"
    by (simp add: engine_with_empty_graph_eq submitGraph_def validate_no_operators
        ExecutionGraph_init_def)
  have c: "submitted_graphs engine_with_empty_graph 0 \<noteq> None"
    by (simp add: engine_with_empty_graph_eq)
  show ?thesis
    using submitGraph_contract [of "Some ExecutionGraph_init" engine_with_empty_graph
        "[SubmitGraph (Some ExecutionGraph_init)]" 1
        "\<lparr>next_graph_id = 2,
          submitted_graphs = [0 \<mapsto> Some ExecutionGraph_init, 1 \<mapsto> Some ExecutionGraph_init],
          graph_states = [0 \<mapsto> SUBMITTED, 1 \<mapsto> SUBMITTED]\<rparr>"] a b c
    by simp
qed

lemma getSuccessors_addOperator:
  "getSuccessors (snd (addOperator op g)) a
     = (if a = next_operator_id g then [] else getSuccessors g a)"
  by (simp add: getSuccessors_def addOperator_def Let_def update_conv')

lemma getPredecessors_addOperator:
  "getPredecessors (snd (addOperator op g)) a
     = (if a = next_operator_id g then [] else getPredecessors g a)"
  by (simp add: getPredecessors_def addOperator_def Let_def update_conv')

lemma getSuccessors_connectOperators:
  "getSuccessors (connectOperators source target g) a
     = (if a = source then getSuccessors g a @ [target] else getSuccessors g a)"
  by (simp add: getSuccessors_def connectOperators_def map_of_map_default split: option.splits)

lemma getPredecessors_connectOperators:
  "getPredecessors (connectOperators source target g) a
     = (if a = target then getPredecessors g a @ [source] else getPredecessors g a)"
  by (simp add: getPredecessors_def connectOperators_def map_of_map_default split: option.splits)

lemma getSuccessors_removeOperator:
  "getSuccessors (removeOperator ident g) a
     = (if a = ident then [] else removeAll ident (getSuccessors g a))"
  by (simp add: getSuccessors_def removeOperator_def map_of_map delete_conv'
      split: option.splits)

lemma getPredecessors_removeOperator:
  "getPredecessors (removeOperator ident g) a
     = (if a = ident then [] else removeAll ident (getPredecessors g a))"
  by (simp add: getPredecessors_def removeOperator_def map_of_map delete_conv'
      split: option.splits)

lemma count_list_removeAll:
  "count_list (removeAll x xs) y = (if y = x then 0 else count_list xs y)"
  by (induction xs) auto

lemma count_list_snoc:
  "count_list (xs @ [x]) y = count_list xs y + (if x = y then 1 else 0)"
  by (induction xs) auto

lemma transposed_init: "transposed ExecutionGraph_init" "unassigned_clean ExecutionGraph_init"
  by (simp_all add: transposed_def unassigned_clean_def getSuccessors_def getPredecessors_def
      ExecutionGraph_init_def)

lemma count_list_0_iff: "count_list xs x = 0 \<longleftrightarrow> x \<notin> set xs"
  by (induction xs) auto

lemma getSuccessors_init:
  "getSuccessors ExecutionGraph_init a = []" "getPredecessors ExecutionGraph_init a = []"
  by (simp_all add: getSuccessors_def getPredecessors_def ExecutionGraph_init_def)

lemma next_operator_id_init: "next_operator_id ExecutionGraph_init = 0"
  by (simp add: ExecutionGraph_init_def)

lemma next_operator_id_step:
  "next_operator_id (snd (addOperator op g)) = Suc (next_operator_id g)"
  "next_operator_id (connectOperators source target g) = next_operator_id g"
  "next_operator_id (removeOperator ident g) = next_operator_id g"
  by (simp_all add: addOperator_def Let_def connectOperators_def removeOperator_def)

lemma graph_step_invariant:
  assumes "transposed g" "unassigned_clean g"
    and "case c of ConnectOperators source target \<Rightarrow>
           source < next_operator_id g \<and> target < next_operator_id g | _ \<Rightarrow> True"
  shows "transposed (graph_step c g) \<and> unassigned_clean (graph_step c g)"
proof (cases c)
  case (AddOperator op)
  have "transposed (snd (addOperator op g))"
    unfolding transposed_def
  proof (intro allI)
    fix a b
    have "count_list (getSuccessors g (next_operator_id g)) b = 0"
      "count_list (getPredecessors g (next_operator_id g)) a = 0"
      using assms(2) by (simp_all add: unassigned_clean_def)
    then show "count_list (getSuccessors (snd (addOperator op g)) a) b
        = count_list (getPredecessors (snd (addOperator op g)) b) a"
      using assms(1)
      by (auto simp: transposed_def getSuccessors_addOperator getPredecessors_addOperator)
  qed
  moreover have "unassigned_clean (snd (addOperator op g))"
    using assms(2)
    by (auto simp: unassigned_clean_def getSuccessors_addOperator getPredecessors_addOperator
        next_operator_id_step)
  ultimately show ?thesis using AddOperator by simp
next
  case (ConnectOperators source target)
  then have lt: "source < next_operator_id g" "target < next_operator_id g"
    using assms(3) by simp_all
  have "transposed (connectOperators source target g)"
    using assms(1)
    by (auto simp: transposed_def getSuccessors_connectOperators
        getPredecessors_connectOperators count_list_snoc)
  moreover have "unassigned_clean (connectOperators source target g)"
    using assms(2) lt
    by (auto simp: unassigned_clean_def getSuccessors_connectOperators
        getPredecessors_connectOperators next_operator_id_step)
  ultimately show ?thesis using ConnectOperators by simp
next
  case (RemoveOperator ident)
  have "transposed (removeOperator ident g)"
    using assms(1)
    by (auto simp: transposed_def getSuccessors_removeOperator
        getPredecessors_removeOperator count_list_removeAll)
  moreover have "unassigned_clean (removeOperator ident g)"
    using assms(2)
    by (auto simp: unassigned_clean_def getSuccessors_removeOperator
        getPredecessors_removeOperator next_operator_id_step)
  ultimately show ?thesis using RemoveOperator by simp
qed

lemma graph_run_invariant:
  "transposed g \<Longrightarrow> unassigned_clean g \<Longrightarrow> endpoints_assigned calls g \<Longrightarrow>
     transposed (graph_run calls g)"
  unfolding graph_run_def
proof (induction calls arbitrary: g)
  case Nil
  then show ?case by simp
next
  case (Cons c calls)
  from Cons.prems have "transposed (graph_step c g) \<and> unassigned_clean (graph_step c g)"
    by (intro graph_step_invariant) simp_all
  with Cons show ?case by simp
qed

text \<open>
  Claim C6, counterexample. On a new graph, \<open>connectOperators(5, 0)\<close> followed by
  \<open>addOperator\<close> (which returns id 0 and resets both adjacency entries of 0) leaves 0 in
  the forward list of 5 while the reverse list of 0 is empty.
\<close>

theorem transpose_counterexample:
  "count_list (getSuccessors (graph_run dangling_calls ExecutionGraph_init) 5) 0 = 1
   \<and> count_list (getPredecessors (graph_run dangling_calls ExecutionGraph_init) 0) 5 = 0"
  by (simp add: dangling_calls_def graph_run_def getSuccessors_addOperator
      getPredecessors_addOperator getSuccessors_connectOperators
      getPredecessors_connectOperators next_operator_id_step getSuccessors_init
      next_operator_id_init)

text \<open>
  Claim C6, amended. After any sequence of \<open>addOperator\<close>, \<open>connectOperators\<close> and
  \<open>removeOperator\<close> calls on a new graph in which every \<open>connectOperators\<close> call names
  two ids that \<open>addOperator\<close> has already returned (ids below the id counter), the
  reverse adjacency is the exact transpose of the forward adjacency: \<open>b\<close> occurs in the
  forward list of \<open>a\<close> exactly as often as \<open>a\<close> occurs in the reverse list of \<open>b\<close>.
\<close>

theorem reverse_is_transpose:
  "endpoints_assigned calls ExecutionGraph_init \<Longrightarrow>
     count_list (getSuccessors (graph_run calls ExecutionGraph_init) a) b
       = count_list (getPredecessors (graph_run calls ExecutionGraph_init) b) a"
  using graph_run_invariant [OF transposed_init, of calls] by (simp add: transposed_def)

text \<open>
  Claim C6, witness: four operators, a double edge, and a removal.
\<close>

theorem reverse_is_transpose_witness:
  "endpoints_assigned diamond_calls ExecutionGraph_init
   \<and> count_list (getSuccessors (graph_run diamond_calls ExecutionGraph_init) 0) 1 = 2
   \<and> count_list (getPredecessors (graph_run diamond_calls ExecutionGraph_init) 1) 0 = 2"
proof -
  have a: "endpoints_assigned diamond_calls ExecutionGraph_init"
    by (simp add: diamond_calls_def next_operator_id_step next_operator_id_init)
  have b: "count_list (getSuccessors (graph_run diamond_calls ExecutionGraph_init) 0) 1 = 2"
    by (simp add: diamond_calls_def graph_run_def getSuccessors_addOperator
        getSuccessors_connectOperators getSuccessors_removeOperator next_operator_id_step
        getSuccessors_init next_operator_id_init)
  show ?thesis using reverse_is_transpose [OF a, of 0 1] a b by simp
qed

lemma dfs_ext_refl: "dfs_ext s s"
  by (cases s) (simp add: dfs_ext_def)

lemma dfs_ext_trans: "dfs_ext s s1 \<Longrightarrow> dfs_ext s1 s2 \<Longrightarrow> dfs_ext s s2"
  by (cases s; cases s1; cases s2) (auto simp: dfs_ext_def)

lemma dfs_invD:
  assumes "dfs_inv g (visited, rec_stack, topo_order)"
  shows "x \<in> set topo_order \<Longrightarrow> visited x" "x \<in> set topo_order \<Longrightarrow> \<not> rec_stack x"
    "visited x \<Longrightarrow> \<not> rec_stack x \<Longrightarrow> x \<in> set topo_order"
    "rec_stack x \<Longrightarrow> visited x" "distinct topo_order"
    "a \<in> set topo_order \<Longrightarrow> b \<in> set (getSuccessors g a) \<Longrightarrow> precedes a b (rev topo_order)"
  using assms unfolding dfs_inv_def prod.case by blast+

lemma dfs_invI:
  assumes "\<And>x. x \<in> set topo_order \<Longrightarrow> visited x \<and> \<not> rec_stack x"
    "\<And>x. visited x \<Longrightarrow> \<not> rec_stack x \<Longrightarrow> x \<in> set topo_order"
    "\<And>x. rec_stack x \<Longrightarrow> visited x" "distinct topo_order"
    "\<And>a b. a \<in> set topo_order \<Longrightarrow> b \<in> set (getSuccessors g a)
        \<Longrightarrow> precedes a b (rev topo_order)"
  shows "dfs_inv g (visited, rec_stack, topo_order)"
  using assms unfolding dfs_inv_def prod.case by blast

lemma dfs_inv_enter:
  assumes inv: "dfs_inv g (visited, rec_stack, topo_order)" and nv: "\<not> visited ident"
  shows "dfs_inv g (visited(ident := True), rec_stack(ident := True), topo_order)"
proof (rule dfs_invI)
  have notin: "ident \<notin> set topo_order" using dfs_invD(1) [OF inv] nv by blast
  show "x \<in> set topo_order \<Longrightarrow> (visited(ident := True)) x \<and> \<not> (rec_stack(ident := True)) x" for x
    using dfs_invD(1,2) [OF inv, of x] notin by auto
  show "(visited(ident := True)) x \<Longrightarrow> \<not> (rec_stack(ident := True)) x \<Longrightarrow> x \<in> set topo_order" for x
    using dfs_invD(3) [OF inv, of x] by (simp split: if_splits)
  show "(rec_stack(ident := True)) x \<Longrightarrow> (visited(ident := True)) x" for x
    using dfs_invD(4) [OF inv, of x] by (simp split: if_splits)
  show "distinct topo_order" by (rule dfs_invD(5) [OF inv])
  show "a \<in> set topo_order \<Longrightarrow> b \<in> set (getSuccessors g a) \<Longrightarrow> precedes a b (rev topo_order)" for a b
    by (rule dfs_invD(6) [OF inv])
qed

lemma dfs_inv_leave:
  assumes inv: "dfs_inv g (visited2, rec_stack2, topo_order2)"
    and on_stack: "rec_stack2 ident" 
    and succs: "set (getSuccessors g ident) \<subseteq> set topo_order2"
  shows "dfs_inv g (visited2, rec_stack2(ident := False), topo_order2 @ [ident])"
proof (rule dfs_invI)
  have notin: "ident \<notin> set topo_order2" using dfs_invD(2) [OF inv] on_stack by blast
  have vis: "visited2 ident" using dfs_invD(4) [OF inv] on_stack by blast
  show "x \<in> set (topo_order2 @ [ident]) \<Longrightarrow> visited2 x \<and> \<not> (rec_stack2(ident := False)) x" for x
    using dfs_invD(1,2) [OF inv, of x] vis by auto
  show "visited2 x \<Longrightarrow> \<not> (rec_stack2(ident := False)) x \<Longrightarrow> x \<in> set (topo_order2 @ [ident])" for x
    using dfs_invD(3) [OF inv, of x] by (simp split: if_splits)
  show "(rec_stack2(ident := False)) x \<Longrightarrow> visited2 x" for x
    using dfs_invD(4) [OF inv, of x] by (simp split: if_splits)
  show "distinct (topo_order2 @ [ident])" using dfs_invD(5) [OF inv] notin by simp
  show "precedes a b (rev (topo_order2 @ [ident]))"
    if "a \<in> set (topo_order2 @ [ident])" "b \<in> set (getSuccessors g a)" for a b
  proof (cases "a = ident")
    case True
    then show ?thesis using that(2) succs by auto
  next
    case False
    then have "a \<in> set topo_order2" using that(1) by simp
    from dfs_invD(6) [OF inv this that(2)] False show ?thesis by simp
  qed
qed

lemma dfs_sound:
  "dfs_inv g s \<Longrightarrow> \<not> fst s ident \<Longrightarrow> topologicalSortUtil g ident s = (False, s') \<Longrightarrow>
     dfs_inv g s' \<and> dfs_ext s s' \<and> ident \<in> set (snd (snd s'))"
  "dfs_inv g s \<Longrightarrow> visit_successors g succs s = (False, s') \<Longrightarrow>
     dfs_inv g s' \<and> dfs_ext s s' \<and> set succs \<subseteq> set (snd (snd s'))"
proof (induction g ident s and g succs s arbitrary: s' and s'
    rule: topologicalSortUtil_visit_successors.induct)
  case (1 g ident visited rec_stack topo_order)
  let ?s1 = "(visited(ident := True), rec_stack(ident := True), topo_order)"
  from "1.prems" have nv: "\<not> visited ident" by simp
  obtain b visited2 rec_stack2 topo_order2 where
    loop0: "visit_successors g (getSuccessors g ident) ?s1 = (b, (visited2, rec_stack2, topo_order2))"
    by (metis prod.exhaust)
  from "1.prems"(3) have "b = False \<and> s' = (visited2, rec_stack2(ident := False), topo_order2 @ [ident])"
    by (cases b) (simp_all add: topologicalSortUtil.simps loop0)
  then have loop: "visit_successors g (getSuccessors g ident) ?s1 = (False, (visited2, rec_stack2, topo_order2))"
    and s': "s' = (visited2, rec_stack2(ident := False), topo_order2 @ [ident])"
    using loop0 by simp_all
  have inv1: "dfs_inv g ?s1" using "1.prems"(1) nv by (rule dfs_inv_enter)
  from "1.IH" [OF inv1 loop] have
    inv2: "dfs_inv g (visited2, rec_stack2, topo_order2)"
    and ext2: "dfs_ext ?s1 (visited2, rec_stack2, topo_order2)"
    and succs: "set (getSuccessors g ident) \<subseteq> set topo_order2"
    by simp_all
  from ext2 have r2: "rec_stack2 = rec_stack(ident := True)"
    and v2: "\<And>x. visited x \<Longrightarrow> visited2 x"
    and t2: "set topo_order \<subseteq> set topo_order2"
    by (auto simp: dfs_ext_def split: if_splits)
  have nr: "\<not> rec_stack ident" using dfs_invD(4) [OF "1.prems"(1)] nv by blast
  have "dfs_inv g s'" unfolding s'
    using inv2 _ succs by (rule dfs_inv_leave) (simp add: r2)
  moreover have "dfs_ext (visited, rec_stack, topo_order) s'"
  proof -
    have "(rec_stack(ident := True))(ident := False) = rec_stack"
      using nr by (auto simp: fun_eq_iff)
    then show ?thesis
      unfolding s' dfs_ext_def using v2 t2 by (auto simp: r2)
  qed
  moreover have "ident \<in> set (snd (snd s'))" by (simp add: s')
  ultimately show ?case by simp
next
  case (2 g s)
  then show ?case by (simp add: dfs_ext_refl)
next
  case (3 g successor rest visited rec_stack topo_order)
  let ?s = "(visited, rec_stack, topo_order)"
  show ?case
  proof (cases "visited successor")
    case False
    with "3.prems"(2) obtain s1 where
      first: "topologicalSortUtil g successor ?s = (False, s1)"
      and more: "visit_successors g rest s1 = (False, s')"
      by (auto split: prod.splits bool.splits)
    from "3.IH"(1) [OF False "3.prems"(1) _ first] False have
      inv1: "dfs_inv g s1" and ext1: "dfs_ext ?s s1" and in1: "successor \<in> set (snd (snd s1))"
      by simp_all
    from "3.IH"(2) [OF False first [symmetric] refl inv1 more] have
      inv': "dfs_inv g s'" and ext': "dfs_ext s1 s'" and in': "set rest \<subseteq> set (snd (snd s'))"
      by simp_all
    have "successor \<in> set (snd (snd s'))"
      using in1 ext' by (cases s1; cases s') (auto simp: dfs_ext_def)
    with inv' in' dfs_ext_trans [OF ext1 ext'] show ?thesis by simp
  next
    case True
    with "3.prems"(2) have nr: "\<not> rec_stack successor"
      and more: "visit_successors g rest ?s = (False, s')"
      by (auto split: if_splits)
    from "3.IH"(3) [OF _ nr "3.prems"(1) more] True have
      inv': "dfs_inv g s'" and ext': "dfs_ext ?s s'" and in': "set rest \<subseteq> set (snd (snd s'))"
      by simp_all
    have "successor \<in> set topo_order"
      using dfs_invD(3) [OF "3.prems"(1)] True nr by blast
    then have "successor \<in> set (snd (snd s'))"
      using ext' by (cases s') (auto simp: dfs_ext_def)
    with inv' ext' in' show ?thesis by simp
  qed
qed

lemma init_flags_False: "init_flags ops = (\<lambda>_. False)"
proof -
  have step: "(\<lambda>(ident, op) flags. flags(ident := False)) p (\<lambda>_. False) = (\<lambda>_. False)"
    for p :: "nat \<times> 'a"
    by (cases p) auto
  have "fold (\<lambda>(ident, op) flags. flags(ident := False)) ops (\<lambda>_. False) = (\<lambda>_. False)"
    by (induction ops) (simp_all only: fold_simps step o_apply)
  then show ?thesis by (simp add: init_flags_def)
qed

lemma dfs_inv_init: "dfs_inv g (\<lambda>_. False, \<lambda>_. False, [])"
  by (simp add: dfs_inv_def)

lemma sort_roots_sound:
  "dfs_inv g s \<Longrightarrow> sort_roots g ids s = (False, s') \<Longrightarrow>
     dfs_inv g s' \<and> dfs_ext s s' \<and> (\<forall>x \<in> set ids. fst s' x)"
proof (induction ids arbitrary: s)
  case Nil
  then show ?case by (simp add: dfs_ext_refl)
next
  case (Cons ident rest)
  obtain visited rec_stack result where s: "s = (visited, rec_stack, result)"
    by (cases s)
  show ?case
  proof (cases "visited ident")
    case True
    with Cons.prems(2) have more: "sort_roots g rest s = (False, s')" by (simp add: s)
    from Cons.IH [OF Cons.prems(1) more] have
      inv': "dfs_inv g s'" and ext': "dfs_ext s s'" and all': "\<forall>x \<in> set rest. fst s' x"
      by simp_all
    have "fst s' ident" using True ext' by (cases s') (auto simp: s dfs_ext_def)
    with inv' ext' all' show ?thesis by simp
  next
    case False
    obtain b s1 where first0: "topologicalSortUtil g ident s = (b, s1)" by (metis prod.exhaust)
    from Cons.prems(2) False have "b = False \<and> sort_roots g rest s1 = (False, s')"
      using first0 by (cases b) (simp_all add: s)
    then have first: "topologicalSortUtil g ident s = (False, s1)"
      and more: "sort_roots g rest s1 = (False, s')"
      using first0 by simp_all
    from dfs_sound(1) [OF Cons.prems(1) _ first] False have
      inv1: "dfs_inv g s1" and ext1: "dfs_ext s s1" and in1: "ident \<in> set (snd (snd s1))"
      by (simp_all add: s)
    from Cons.IH [OF inv1 more] have
      inv': "dfs_inv g s'" and ext': "dfs_ext s1 s'" and all': "\<forall>x \<in> set rest. fst s' x"
      by simp_all
    obtain v1 r1 t1 where s1: "s1 = (v1, r1, t1)" by (cases s1)
    have "v1 ident" using dfs_invD(1) [OF inv1 [unfolded s1]] in1 by (simp add: s1)
    then have "fst s' ident" using ext' by (cases s') (auto simp: s1 dfs_ext_def)
    with inv' all' dfs_ext_trans [OF ext1 ext'] show ?thesis by simp
  qed
qed

lemma dfs_order_irrelevant:
  "same_flags (topologicalSortUtil g ident s)
     (topologicalSortUtil g ident (fst s, fst (snd s), other))"
  "same_flags (visit_successors g succs s)
     (visit_successors g succs (fst s, fst (snd s), other))"
proof (induction g ident s and g succs s arbitrary: other and other
    rule: topologicalSortUtil_visit_successors.induct)
  case (1 g ident visited rec_stack topo_order)
  let ?a = "visit_successors g (getSuccessors g ident)
              (visited(ident := True), rec_stack(ident := True), topo_order)"
  let ?b = "visit_successors g (getSuccessors g ident)
              (visited(ident := True), rec_stack(ident := True), other)"
  have "same_flags ?a ?b" using "1.IH" [of other] unfolding fst_conv snd_conv .
  then show ?case
    by (cases ?a; cases ?b)
      (auto simp: same_flags_def topologicalSortUtil.simps split: bool.splits)
next
  case (2 g s)
  then show ?case by (simp add: same_flags_def)
next
  case (3 g successor rest visited rec_stack topo_order)
  show ?case
  proof (cases "visited successor")
    case True
    then show ?thesis
      using "3.IH"(3) [of other] by (auto simp: same_flags_def)
  next
    case False
    obtain b y where a: "topologicalSortUtil g successor (visited, rec_stack, topo_order) = (b, y)"
      by (metis prod.exhaust)
    obtain b' y' where a': "topologicalSortUtil g successor (visited, rec_stack, other) = (b', y')"
      by (metis prod.exhaust)
    have sf: "same_flags (b, y) (b', y')"
      using "3.IH"(1) [OF False, of other] by (simp add: a a')
    show ?thesis
    proof (cases b)
      case True
      then show ?thesis using sf False by (simp add: a a' same_flags_def)
    next
      case b: False
      have y': "y' = (fst y, fst (snd y), snd (snd y'))"
        using sf by (cases y; cases y') (simp add: same_flags_def)
      have "same_flags (visit_successors g rest y)
              (visit_successors g rest (fst y, fst (snd y), snd (snd y')))"
      proof -
        have bF: "b = False" using b by simp
        show ?thesis using "3.IH"(2) [OF False a [symmetric] bF, of "snd (snd y')"] .
      qed
      then show ?thesis using sf False b y' by (simp add: a a' same_flags_def)
    qed
  qed
qed

lemma detect_roots_sort_roots:
  "detect_roots g ids (visited, rec_stack) = fst (sort_roots g ids (visited, rec_stack, result))"
proof (induction ids arbitrary: visited rec_stack result)
  case Nil
  then show ?case by simp
next
  case (Cons ident rest)
  show ?case
  proof (cases "visited ident")
    case True
    then show ?thesis using Cons.IH by simp
  next
    case False
    obtain b v1 r1 t1 where
      a: "topologicalSortUtil g ident (visited, rec_stack, []) = (b, (v1, r1, t1))"
      by (metis prod.exhaust)
    obtain b' v2 r2 t2 where
      a': "topologicalSortUtil g ident (visited, rec_stack, result) = (b', (v2, r2, t2))"
      by (metis prod.exhaust)
    have "same_flags (b, (v1, r1, t1)) (b', (v2, r2, t2))"
      using dfs_order_irrelevant(1) [of g ident "(visited, rec_stack, [])" result]
      by (simp add: a a')
    then have eq: "b' = b" "v2 = v1" "r2 = r1" by (simp_all add: same_flags_def)
    show ?thesis
      using False Cons.IH [of v1 r1 t2] by (cases b) (simp_all add: a a' eq)
  qed
qed

lemma detectCycles_sort_roots:
  "detectCycles g = fst (sort_roots g (map fst (operators g)) (\<lambda>_. False, \<lambda>_. False, []))"
  by (simp add: detectCycles_def init_flags_False detect_roots_sort_roots)

lemma getTopologicalOrder_alt:
  "getTopologicalOrder g =
     (case sort_roots g (map fst (operators g)) (\<lambda>_. False, \<lambda>_. False, []) of
        (True, s) \<Rightarrow> []
      | (False, (visited, rec_stack, result)) \<Rightarrow> rev result)"
  by (simp add: getTopologicalOrder_def init_flags_False)

lemma valid_order:
  assumes "validate g"
  obtains visited result where
    "sort_roots g (map fst (operators g)) (\<lambda>_. False, \<lambda>_. False, [])
       = (False, (visited, \<lambda>_. False, result))"
    "getTopologicalOrder g = rev result"
    "dfs_inv g (visited, \<lambda>_. False, result)"
    "\<forall>x \<in> set (map fst (operators g)). visited x"
proof -
  let ?r = "sort_roots g (map fst (operators g)) (\<lambda>_. False, \<lambda>_. False, [])"
  obtain b visited rec_stack result where r: "?r = (b, (visited, rec_stack, result))"
    by (metis prod.exhaust)
  from assms have "\<not> b"
    by (simp add: validate_def isValid_def detectCycles_sort_roots r)
  then have r': "?r = (False, (visited, rec_stack, result))" using r by simp
  from sort_roots_sound [OF dfs_inv_init r'] have
    inv: "dfs_inv g (visited, rec_stack, result)"
    and ext: "dfs_ext (\<lambda>_. False, \<lambda>_. False, []) (visited, rec_stack, result)"
    and all: "\<forall>x \<in> set (map fst (operators g)). visited x"
    by simp_all
  from ext have rs: "rec_stack = (\<lambda>_. False)" by (simp add: dfs_ext_def)
  show ?thesis
    using that [of visited result] r' inv all
    by (simp add: rs getTopologicalOrder_alt)
qed

text \<open>
  Claim C4. For every graph, \<open>validate\<close> (cycle detection) is true if and only if
  \<open>getTopologicalOrder\<close> returns a non-empty vector or the graph has no operators.
\<close>

theorem validate_iff_order:
  "validate g \<longleftrightarrow> validate_spec g"
  unfolding validate_spec_def
proof
  assume v: "validate g"
  show "getTopologicalOrder g \<noteq> [] \<or> empty_graph g"
  proof (cases "operators g")
    case Nil
    then show ?thesis by (simp add: empty_graph_def)
  next
    case (Cons p ps)
    from v obtain visited result where
      order: "getTopologicalOrder g = rev result"
      and inv: "dfs_inv g (visited, \<lambda>_. False, result)"
      and all: "\<forall>x \<in> set (map fst (operators g)). visited x"
      by (rule valid_order)
    from all Cons have "visited (fst p)" by simp
    then have "fst p \<in> set result" using dfs_invD(3) [OF inv] by simp
    then show ?thesis by (auto simp: order)
  qed
next
  assume "getTopologicalOrder g \<noteq> [] \<or> empty_graph g"
  then show "validate g"
  proof
    assume ne: "getTopologicalOrder g \<noteq> []"
    then have "\<not> fst (sort_roots g (map fst (operators g)) (\<lambda>_. False, \<lambda>_. False, []))"
      by (auto simp: getTopologicalOrder_alt split: prod.splits bool.splits)
    then show ?thesis by (simp add: validate_def isValid_def detectCycles_sort_roots)
  next
    assume "empty_graph g"
    then show ?thesis
      by (simp add: empty_graph_def validate_def isValid_def detectCycles_def)
  qed
qed

lemma getSuccessors_registered:
  assumes "endpoints_registered g" "b \<in> set (getSuccessors g a)"
  shows "a \<in> set (map fst (operators g))" "b \<in> set (map fst (operators g))"
proof -
  from assms(2) obtain succs where m: "map_of (adjacency_list g) a = Some succs"
    and b: "b \<in> set succs"
    by (cases "map_of (adjacency_list g) a") (simp_all add: getSuccessors_def)
  from m have "(a, succs) \<in> set (adjacency_list g)" by (rule map_of_SomeD)
  with assms(1) b show "a \<in> set (map fst (operators g))" "b \<in> set (map fst (operators g))"
    unfolding endpoints_registered_def by blast+
qed

lemma dfs_within:
  "(\<And>a. set (getSuccessors g a) \<subseteq> N) \<Longrightarrow> ident \<in> N \<Longrightarrow> (\<And>x. fst s x \<Longrightarrow> x \<in> N) \<Longrightarrow>
     fst (snd (topologicalSortUtil g ident s)) y \<Longrightarrow> y \<in> N"
  "(\<And>a. set (getSuccessors g a) \<subseteq> N) \<Longrightarrow> set succs \<subseteq> N \<Longrightarrow> (\<And>x. fst s x \<Longrightarrow> x \<in> N) \<Longrightarrow>
     fst (snd (visit_successors g succs s)) y \<Longrightarrow> y \<in> N"
proof (induction g ident s and g succs s arbitrary: y and y
    rule: topologicalSortUtil_visit_successors.induct)
  case (1 g ident visited rec_stack topo_order)
  let ?s1 = "(visited(ident := True), rec_stack(ident := True), topo_order)"
  have start: "\<And>x. fst ?s1 x \<Longrightarrow> x \<in> N"
    using "1.prems"(2,3) by (auto split: if_splits)
  have "fst (snd (visit_successors g (getSuccessors g ident) ?s1)) y"
    using "1.prems"(4)
    by (cases "visit_successors g (getSuccessors g ident) ?s1")
      (auto simp: topologicalSortUtil.simps split: bool.splits)
  with "1.IH" [OF "1.prems"(1) "1.prems"(1) [of ident] start] show ?case by blast
next
  case (2 g s)
  then show ?case by simp
next
  case (3 g successor rest visited rec_stack topo_order)
  let ?s = "(visited, rec_stack, topo_order)"
  from "3.prems"(2) have sN: "successor \<in> N" and rN: "set rest \<subseteq> N" by simp_all
  show ?case
  proof (cases "visited successor")
    case True
    show ?thesis
    proof (cases "rec_stack successor")
      case True
      with \<open>visited successor\<close> "3.prems"(3,4) show ?thesis by simp
    next
      case False
      with \<open>visited successor\<close> "3.prems"(4)
      have "fst (snd (visit_successors g rest ?s)) y" by simp
      with "3.IH"(3) [OF _ False "3.prems"(1) rN "3.prems"(3)] \<open>visited successor\<close>
      show ?thesis by blast
    qed
  next
    case False
    obtain b s1 where first: "topologicalSortUtil g successor ?s = (b, s1)"
      by (metis prod.exhaust)
    have within1: "\<And>x. fst s1 x \<Longrightarrow> x \<in> N"
      using "3.IH"(1) [OF False "3.prems"(1) sN "3.prems"(3)] first by simp
    show ?thesis
    proof (cases b)
      case True
      with False "3.prems"(4) first have "fst s1 y" by simp
      then show ?thesis by (rule within1)
    next
      case b: False
      then have bF: "b = False" by simp
      from False "3.prems"(4) first b
      have "fst (snd (visit_successors g rest s1)) y" by simp
      with "3.IH"(2) [OF False first [symmetric] bF "3.prems"(1) rN within1]
      show ?thesis by blast
    qed
  qed
qed

lemma sort_roots_within:
  "(\<And>a. set (getSuccessors g a) \<subseteq> N) \<Longrightarrow> set ids \<subseteq> N \<Longrightarrow> (\<And>x. fst s x \<Longrightarrow> x \<in> N) \<Longrightarrow>
     fst (snd (sort_roots g ids s)) y \<Longrightarrow> y \<in> N"
proof (induction ids arbitrary: s y)
  case Nil
  then show ?case by simp
next
  case (Cons ident rest)
  obtain visited rec_stack result where s: "s = (visited, rec_stack, result)" by (cases s)
  from Cons.prems(2) have iN: "ident \<in> N" and rN: "set rest \<subseteq> N" by simp_all
  show ?case
  proof (cases "visited ident")
    case True
    with Cons.prems(4) have "fst (snd (sort_roots g rest s)) y" by (simp add: s)
    with Cons.IH [OF Cons.prems(1) rN Cons.prems(3)] show ?thesis by blast
  next
    case False
    obtain b s1 where first: "topologicalSortUtil g ident s = (b, s1)" by (metis prod.exhaust)
    have within1: "\<And>x. fst s1 x \<Longrightarrow> x \<in> N"
      using dfs_within(1) [OF Cons.prems(1) iN Cons.prems(3), of s] first by simp
    show ?thesis
    proof (cases b)
      case True
      with False Cons.prems(4) first have "fst s1 y" by (simp add: s)
      then show ?thesis by (rule within1)
    next
      case b: False
      with False Cons.prems(4) first
      have "fst (snd (sort_roots g rest s1)) y" by (simp add: s)
      with Cons.IH [OF Cons.prems(1) rN within1] show ?thesis by blast
    qed
  qed
qed

lemma precedes_distinct:
  "precedes a b xs \<Longrightarrow> distinct xs \<Longrightarrow>
     \<exists>i j. i < j \<and> j < length xs \<and> xs ! i = a \<and> xs ! j = b"
proof (induction xs)
  case Nil
  then show ?case by simp
next
  case (Cons x xs)
  show ?case
  proof (cases "x = a")
    case True
    with Cons.prems have "b \<in> set xs" by simp
    then obtain j where "j < length xs" "xs ! j = b" by (auto simp: in_set_conv_nth)
    with True have "0 < Suc j \<and> Suc j < length (x # xs) \<and> (x # xs) ! 0 = a \<and> (x # xs) ! Suc j = b"
      by simp
    then show ?thesis by blast
  next
    case False
    with Cons obtain i j where "i < j" "j < length xs" "xs ! i = a" "xs ! j = b" by auto
    then have "Suc i < Suc j \<and> Suc j < length (x # xs) \<and> (x # xs) ! Suc i = a \<and> (x # xs) ! Suc j = b"
      by simp
    then show ?thesis by blast
  qed
qed

text \<open>
  Claim C5, amended. For every graph on which \<open>validate\<close> is true and in which both
  endpoints of every edge are registered operators, \<open>getTopologicalOrder\<close> returns every
  registered operator id exactly once and nothing else (a permutation of the registered
  ids), and for every edge \<open>(a, b)\<close> of the forward adjacency \<open>a\<close> precedes \<open>b\<close> in it.
\<close>

theorem topological_order_valid:
  assumes "validate g" and "endpoints_registered g"
  shows "distinct (getTopologicalOrder g)
       \<and> set (getTopologicalOrder g) = set (map fst (operators g))
       \<and> (distinct (map fst (operators g))
            \<longrightarrow> mset (getTopologicalOrder g) = mset (map fst (operators g)))
       \<and> (\<forall>a b. b \<in> set (getSuccessors g a) \<longrightarrow> precedes a b (getTopologicalOrder g))
       \<and> (\<forall>a b. b \<in> set (getSuccessors g a) \<longrightarrow>
            (\<exists>i j. i < j \<and> j < length (getTopologicalOrder g)
                  \<and> getTopologicalOrder g ! i = a \<and> getTopologicalOrder g ! j = b))"
proof -
  let ?N = "set (map fst (operators g))"
  from assms(1) obtain visited result where
    run: "sort_roots g (map fst (operators g)) (\<lambda>_. False, \<lambda>_. False, [])
            = (False, (visited, \<lambda>_. False, result))"
    and order: "getTopologicalOrder g = rev result"
    and inv: "dfs_inv g (visited, \<lambda>_. False, result)"
    and all: "\<forall>x \<in> ?N. visited x"
    by (rule valid_order)
  have closed: "\<And>a. set (getSuccessors g a) \<subseteq> ?N"
    using getSuccessors_registered(2) [OF assms(2)] by blast
  have within: "visited y \<Longrightarrow> y \<in> ?N" for y
    using sort_roots_within [OF closed subset_refl, of "(\<lambda>_. False, \<lambda>_. False, [])" y]
    by (simp add: run)
  have d: "distinct (getTopologicalOrder g)"
    using dfs_invD(5) [OF inv] by (simp add: order)
  have "set result = ?N"
  proof
    show "set result \<subseteq> ?N" using dfs_invD(1) [OF inv] within by blast
    show "?N \<subseteq> set result" using dfs_invD(3) [OF inv] all by blast
  qed
  then have s: "set (getTopologicalOrder g) = ?N" by (simp add: order)
  have p: "precedes a b (getTopologicalOrder g)" if "b \<in> set (getSuccessors g a)" for a b
  proof -
    have "a \<in> ?N" using getSuccessors_registered(1) [OF assms(2) that] .
    then have "a \<in> set result" using \<open>set result = ?N\<close> by simp
    from dfs_invD(6) [OF inv this that] show ?thesis by (simp add: order)
  qed
  have m: "mset (getTopologicalOrder g) = mset (map fst (operators g))"
    if "distinct (map fst (operators g))"
    using d s that set_eq_iff_mset_eq_distinct [of "getTopologicalOrder g" "map fst (operators g)"]
    by blast
  show ?thesis
    using d s m p precedes_distinct [OF p d] by blast
qed

lemma pipeline_graph_eq:
  "pipeline_graph =
     \<lparr>operators = [(0, ()), (1, ()), (2, ())],
      adjacency_list = [(0, [1, 2]), (1, [2]), (2, [])],
      reverse_adjacency_list = [(0, []), (1, [0]), (2, [1, 0])],
      next_operator_id = 3\<rparr>"
  by (simp add: pipeline_graph_def graph_run_def addOperator_def connectOperators_def
      ExecutionGraph_init_def Let_def)

lemma dangling_graph_eq:
  "dangling_graph =
     \<lparr>operators = [(0, ())], adjacency_list = [(0, [5])],
      reverse_adjacency_list = [(0, []), (5, [0])], next_operator_id = 1\<rparr>"
  by (simp add: dangling_graph_def graph_run_def addOperator_def connectOperators_def
      ExecutionGraph_init_def Let_def)

lemma pipeline_sort:
  "sort_roots pipeline_graph [0, 1, 2] (\<lambda>_. False, \<lambda>_. False, [])
     = (False, (\<lambda>x. x = 0 \<or> x = 1 \<or> x = 2, \<lambda>_. False, [2, 1, 0]))"
  by (simp add: pipeline_graph_eq topologicalSortUtil.simps getSuccessors_def fun_eq_iff)

lemma dangling_sort:
  "sort_roots dangling_graph [0] (\<lambda>_. False, \<lambda>_. False, [])
     = (False, (\<lambda>x. x = 0 \<or> x = 5, \<lambda>_. False, [5, 0]))"
  by (simp add: dangling_graph_eq topologicalSortUtil.simps getSuccessors_def fun_eq_iff)

text \<open>
  Claim C5, counterexample. With one operator 0 and an edge from 0 to the id 5 that no
  operator has, \<open>validate\<close> is true and the order returned is \<open>[0, 5]\<close>, which is not a
  permutation of the registered ids \<open>[0]\<close>.
\<close>

theorem order_not_permutation_counterexample:
  "validate dangling_graph
   \<and> getTopologicalOrder dangling_graph = [0, 5]
   \<and> map fst (operators dangling_graph) = [0]"
proof -
  have ops: "map fst (operators dangling_graph) = [0]" by (simp add: dangling_graph_eq)
  show ?thesis
    using dangling_sort
    by (simp add: validate_def isValid_def detectCycles_sort_roots getTopologicalOrder_alt ops)
qed

text \<open>
  Claim C5, witness: three operators in a chain with a shortcut edge.
\<close>

theorem topological_order_valid_witness:
  "validate pipeline_graph \<and> endpoints_registered pipeline_graph
   \<and> getTopologicalOrder pipeline_graph = [0, 1, 2]
   \<and> distinct (getTopologicalOrder pipeline_graph)
   \<and> set (getTopologicalOrder pipeline_graph) = set (map fst (operators pipeline_graph))
   \<and> precedes 0 2 (getTopologicalOrder pipeline_graph)"
proof -
  have ops: "map fst (operators pipeline_graph) = [0, 1, 2]" by (simp add: pipeline_graph_eq)
  have v: "validate pipeline_graph"
    using pipeline_sort
    by (simp add: validate_def isValid_def detectCycles_sort_roots ops)
  have e: "endpoints_registered pipeline_graph"
    by (simp add: endpoints_registered_def pipeline_graph_eq)
  have o: "getTopologicalOrder pipeline_graph = [0, 1, 2]"
    using pipeline_sort by (simp add: getTopologicalOrder_alt ops)
  have s: "2 \<in> set (getSuccessors pipeline_graph 0)"
    by (simp add: getSuccessors_def pipeline_graph_eq)
  show ?thesis
    using topological_order_valid [OF v e] v e o s by blast
qed

text \<open>
  Claim C4, witness: a graph of three operators with a non-empty order.
\<close>

theorem validate_iff_order_witness:
  "validate_spec pipeline_graph \<and> validate pipeline_graph"
proof -
  have ops: "map fst (operators pipeline_graph) = [0, 1, 2]" by (simp add: pipeline_graph_eq)
  have o: "validate_spec pipeline_graph"
    using pipeline_sort by (simp add: validate_spec_def getTopologicalOrder_alt ops)
  show ?thesis using validate_iff_order [of pipeline_graph] o by blast
qed

end
